theory Spec2Isabelle
  imports Main "HOL-Library.Word" "HOL-Library.Signed_Division"
begin

unbundle bit_operations_syntax

section \<open>Waits-for graph (pkg/concurrency/deadlock.go)\<close>

text \<open>
  An \<open>Edge\<close> is a pair \<open>(from, to)\<close> of transaction pointers; the graph is the slice
  \<open>edges\<close>. The element type \<open>'t\<close> stands for \<open>*Transaction\<close> (pointer identity).
\<close>

type_synonym 't Edge = "'t \<times> 't"

type_synonym 't WaitsForGraph = "'t Edge list"

definition NewGraph :: "'t WaitsForGraph" where
  "NewGraph = []"

definition AddEdge :: "'t WaitsForGraph \<Rightarrow> 't \<Rightarrow> 't \<Rightarrow> 't WaitsForGraph" where
  "AddEdge g from to = g @ [(from, to)]"

text \<open>\<open>removeHelper\<close>: overwrite slot \<open>i\<close> with the last element, drop the last slot.\<close>

definition removeHelper :: "'a list \<Rightarrow> nat \<Rightarrow> 'a list" where
  "removeHelper list i = butlast (list[i := last list])"

fun first_index :: "'a list \<Rightarrow> 'a \<Rightarrow> nat option" where
  "first_index [] x = None"
| "first_index (y # ys) x =
     (if y = x then Some 0 else map_option Suc (first_index ys x))"

text \<open>\<open>RemoveEdge\<close> removes one copy of the edge; \<open>None\<close> is the error "edge not found".\<close>

definition RemoveEdge :: "'t WaitsForGraph \<Rightarrow> 't \<Rightarrow> 't \<Rightarrow> 't WaitsForGraph option" where
  "RemoveEdge g from to =
     (case first_index g (from, to) of
        Some i \<Rightarrow> Some (removeHelper g i)
      | None \<Rightarrow> None)"

text \<open>
  \<open>dfs\<close> scans the edge slice for the first edge leaving \<open>from\<close>; it answers \<open>True\<close> when
  the target is already in \<open>seen\<close>, and otherwise marks the target and returns the result
  of the search from it. No edge leaving \<open>from\<close>: \<open>False\<close>.
\<close>

function dfs :: "'t WaitsForGraph \<Rightarrow> 't \<Rightarrow> 't set \<Rightarrow> bool" where
  "dfs g from seen =
     (case find (\<lambda>e. fst e = from) g of
        None \<Rightarrow> False
      | Some e \<Rightarrow> if snd e \<in> seen then True else dfs g (snd e) (insert (snd e) seen))"
  by pat_completeness auto
termination
proof (relation "measure (\<lambda>(g, from, seen). card (snd ` set g - seen))")
  show "wf (measure (\<lambda>(g, from, seen). card (snd ` set g - seen)))"
    by simp
next
  fix g :: "'t WaitsForGraph" and "from" :: 't and seen :: "'t set" and e :: "'t Edge"
  assume f: "find (\<lambda>e. fst e = from) g = Some e" and n: "snd e \<notin> seen"
  from f have "e \<in> set g"
    by (auto simp: find_Some_iff)
  then have m: "snd e \<in> snd ` set g - seen"
    using n by auto
  have "snd ` set g - insert (snd e) seen = (snd ` set g - seen) - {snd e}"
    by auto
  moreover have "card ((snd ` set g - seen) - {snd e}) < card (snd ` set g - seen)"
    using m by (intro card_Diff1_less) auto
  ultimately show "((g, snd e, insert (snd e) seen), (g, from, seen))
      \<in> measure (\<lambda>(g, from, seen). card (snd ` set g - seen))"
    by simp
qed

declare dfs.simps [simp del]

definition DetectCycle :: "'t WaitsForGraph \<Rightarrow> bool" where
  "DetectCycle g = (if length g = 0 then False else dfs g (fst (g ! 0)) {})"

text \<open>The calls that build a graph; a failed \<open>RemoveEdge\<close> leaves the slice as it is.\<close>

datatype 't graph_call = CallAddEdge 't 't | CallRemoveEdge 't 't

fun do_graph_call :: "'t WaitsForGraph \<Rightarrow> 't graph_call \<Rightarrow> 't WaitsForGraph" where
  "do_graph_call g (CallAddEdge a b) = AddEdge g a b"
| "do_graph_call g (CallRemoveEdge a b) =
     (case RemoveEdge g a b of Some g' \<Rightarrow> g' | None \<Rightarrow> g)"

definition graph_after :: "'t graph_call list \<Rightarrow> 't WaitsForGraph" where
  "graph_after calls = foldl do_graph_call NewGraph calls"

text \<open>A directed cycle: some vertex reaches itself along at least one edge.\<close>

definition has_cycle :: "'t WaitsForGraph \<Rightarrow> bool" where
  "has_cycle g = (\<exists>v. (v, v) \<in> (set g)\<^sup>+)"

section \<open>Transaction manager (pkg/concurrency: transaction manager, resource locks)\<close>

datatype LockType = R_LOCK | W_LOCK

text \<open>A \<open>Resource\<close> is the struct \<open>{tableName, key}\<close>; it is a map key, compared by value.\<close>

type_synonym Resource = "string \<times> int"

text \<open>
  A \<open>sync.RWMutex\<close>: the number of read locks held, whether the write lock is held, and
  the number of calls of \<open>Lock\<close> that wait for it. \<open>RLock\<close> waits while a writer holds the
  mutex or waits for it; \<open>Lock\<close> waits while anyone holds it. A call that waits does
  not return unless a holder releases the mutex.
\<close>

record RWMutex =
  readers :: nat
  writer :: bool
  waiting :: nat

definition new_RWMutex :: RWMutex where
  "new_RWMutex = \<lparr>readers = 0, writer = False, waiting = 0\<rparr>"

text \<open>\<open>RLock\<close>: \<open>None\<close> when the call waits, else the mutex with one more reader.\<close>

definition mutex_RLock :: "RWMutex \<Rightarrow> RWMutex option" where
  "mutex_RLock m =
     (if writer m \<or> waiting m > 0 then None else Some (m\<lparr>readers := readers m + 1\<rparr>))"

definition mutex_RUnlock :: "RWMutex \<Rightarrow> RWMutex" where
  "mutex_RUnlock m = m\<lparr>readers := readers m - 1\<rparr>"

text \<open>
  \<open>Lock\<close>: the mutex afterwards and whether the write lock was taken; a call that waits
  is counted in \<open>waiting\<close>.
\<close>

definition mutex_Lock :: "RWMutex \<Rightarrow> RWMutex \<times> bool" where
  "mutex_Lock m =
     (if writer m \<or> readers m > 0 \<or> waiting m > 0 then (m\<lparr>waiting := waiting m + 1\<rparr>, False)
      else (m\<lparr>writer := True\<rparr>, True))"

definition mutex_Unlock :: "RWMutex \<Rightarrow> RWMutex" where
  "mutex_Unlock m = m\<lparr>writer := False\<rparr>"

text \<open>\<open>Transaction\<close>: the client id, the map \<open>lockedResources\<close>, and its mutex.\<close>

record 'c Transaction =
  clientId :: 'c
  lockedResources :: "Resource \<rightharpoonup> LockType"
  mtx :: RWMutex

text \<open>
  \<open>TransactionManager\<close>: the resource lock manager's map from resources to mutexes, the
  waits-for graph, and the map from client ids to transactions. A transaction pointer
  is identified with the client id it is stored under. The manager's own mutex is
  taken and released inside \<open>GetTransaction\<close> and \<open>Begin\<close>, which wait for nothing else
  while they hold it, so it is free whenever one of the calls below starts.
\<close>

record 'c TransactionManager =
  resourceLockManager :: "Resource \<rightharpoonup> RWMutex"
  waitsForGraph :: "'c WaitsForGraph"
  transactions :: "'c \<rightharpoonup> 'c Transaction"

definition NewTransactionManager :: "'c TransactionManager" where
  "NewTransactionManager =
     \<lparr>resourceLockManager = Map.empty, waitsForGraph = NewGraph, transactions = Map.empty\<rparr>"

datatype tm_error = TransactionAlreadyBegan | NoSuchTransaction | CannotUpgradeLock | DeadlockDetected

text \<open>
  The outcome of a call: it returns \<open>nil\<close>, returns an error, or waits on a mutex
  (\<open>Blocked\<close>); the manager paired with \<open>Blocked\<close> is the state in which the call waits.
\<close>

datatype tm_result = Ok | Err tm_error | Blocked

definition Begin :: "'c TransactionManager \<Rightarrow> 'c \<Rightarrow> tm_result \<times> 'c TransactionManager" where
  "Begin tm cid =
     (case transactions tm cid of
        Some t \<Rightarrow> (Err TransactionAlreadyBegan, tm)
      | None \<Rightarrow>
          (Ok, tm\<lparr>transactions := (transactions tm)(cid \<mapsto>
                 \<lparr>clientId = cid, lockedResources = Map.empty, mtx = new_RWMutex\<rparr>)\<rparr>))"

text \<open>
  \<open>ResourceLockManager.Lock\<close>: the mutex of the resource is created on first use, then
  locked in the requested mode; the result tells whether the lock was taken. The lock
  manager's own mutex guards the map only and is released before the resource is
  locked.
\<close>

definition rlm_Lock ::
  "(Resource \<rightharpoonup> RWMutex) \<Rightarrow> Resource \<Rightarrow> LockType \<Rightarrow> (Resource \<rightharpoonup> RWMutex) \<times> bool" where
  "rlm_Lock locks r lType =
     (let lock = (case locks r of Some m \<Rightarrow> m | None \<Rightarrow> new_RWMutex);
          locks1 = locks(r \<mapsto> lock)
      in case lType of
           R_LOCK \<Rightarrow>
             (case mutex_RLock lock of
                None \<Rightarrow> (locks1, False)
              | Some lock' \<Rightarrow> (locks1(r \<mapsto> lock'), True))
         | W_LOCK \<Rightarrow>
             (case mutex_Lock lock of (lock', taken) \<Rightarrow> (locks1(r \<mapsto> lock'), taken)))"

text \<open>
  \<open>conflictingTransactions\<close> ranges over the map of transactions; \<open>order\<close> is the order in
  which that range visits the client ids (unspecified in Go). Each transaction is
  read-locked while its resources are looked at and unlocked again before the next
  one, so the mutexes are as before when the loop ends; the loop waits (\<open>None\<close>) at the
  first transaction whose read lock is not granted. A transaction conflicts when it
  holds the resource and either lock is a write lock.
\<close>

fun conflictingTransactions ::
  "'c TransactionManager \<Rightarrow> 'c list \<Rightarrow> Resource \<Rightarrow> LockType \<Rightarrow> 'c list option" where
  "conflictingTransactions tm [] r lType = Some []"
| "conflictingTransactions tm (c # cs) r lType =
     (case transactions tm c of
        None \<Rightarrow> conflictingTransactions tm cs r lType
      | Some t \<Rightarrow>
          (case mutex_RLock (mtx t) of
             None \<Rightarrow> None
           | Some m1 \<Rightarrow>
               (case conflictingTransactions tm cs r lType of
                  None \<Rightarrow> None
                | Some txs \<Rightarrow>
                    (case lockedResources t r of
                       None \<Rightarrow> Some txs
                     | Some storedType \<Rightarrow>
                         if storedType = W_LOCK \<or> lType = W_LOCK then Some (c # txs)
                         else Some txs))))"

text \<open>The deferred \<open>RemoveEdge\<close> calls run last-in first-out; their errors are dropped.\<close>

definition remove_edges :: "'c WaitsForGraph \<Rightarrow> 'c \<Rightarrow> 'c list \<Rightarrow> 'c WaitsForGraph" where
  "remove_edges g from ts =
     foldl (\<lambda>g t. case RemoveEdge g from t of Some g' \<Rightarrow> g' | None \<Rightarrow> g) g (rev ts)"

definition set_tx ::
  "'c TransactionManager \<Rightarrow> 'c \<Rightarrow> 'c Transaction \<Rightarrow> 'c TransactionManager" where
  "set_tx tm cid t = tm\<lparr>transactions := (transactions tm)(cid \<mapsto> t)\<rparr>"

text \<open>
  \<open>TransactionManager.Lock\<close>. The conflicting transactions are collected and the
  transaction is read-locked before the lookup of the resource. That read lock is
  released on the already-held path and before the resource's mutex is taken; the
  deadlock path returns with it held. The deferred calls (\<open>RemoveEdge\<close>, \<open>WUnlock\<close>) run
  when the call returns, so not when it waits.
\<close>

definition Lock ::
  "'c TransactionManager \<Rightarrow> 'c list \<Rightarrow> 'c \<Rightarrow> string \<Rightarrow> int \<Rightarrow> LockType
     \<Rightarrow> tm_result \<times> 'c TransactionManager" where
  "Lock tm order cid table resourceKey lType =
     (case transactions tm cid of
        None \<Rightarrow> (Err NoSuchTransaction, tm)
      | Some transaction \<Rightarrow>
          (let newResource = (table, resourceKey)
           in case conflictingTransactions tm order newResource lType of
                None \<Rightarrow> (Blocked, tm)
              | Some possibleConflicts \<Rightarrow>
                  (case mutex_RLock (mtx transaction) of
                     None \<Rightarrow> (Blocked, tm)
                   | Some m1 \<Rightarrow>
                       (case lockedResources transaction newResource of
                          Some cur \<Rightarrow>
                            (let tm1 = set_tx tm cid (transaction\<lparr>mtx := mutex_RUnlock m1\<rparr>)
                             in if cur = R_LOCK \<and> lType = W_LOCK
                                then (Err CannotUpgradeLock, tm1)
                                else (Ok, tm1))
                        | None \<Rightarrow>
                            (let g1 = foldl (\<lambda>g t. AddEdge g cid t) (waitsForGraph tm)
                                        possibleConflicts;
                                 g2 = remove_edges g1 cid possibleConflicts
                             in if DetectCycle g1
                                then (Err DeadlockDetected,
                                      set_tx (tm\<lparr>waitsForGraph := g2\<rparr>) cid
                                        (transaction\<lparr>mtx := m1\<rparr>))
                                else
                                  (let m2 = mutex_RUnlock m1
                                   in case rlm_Lock (resourceLockManager tm) newResource lType of
                                        (locks1, False) \<Rightarrow>
                                          (Blocked,
                                           set_tx (tm\<lparr>resourceLockManager := locks1,
                                                       waitsForGraph := g1\<rparr>) cid
                                             (transaction\<lparr>mtx := m2\<rparr>))
                                      | (locks1, True) \<Rightarrow>
                                          (case mutex_Lock m2 of
                                             (m3, False) \<Rightarrow>
                                               (Blocked,
                                                set_tx (tm\<lparr>resourceLockManager := locks1,
                                                            waitsForGraph := g1\<rparr>) cid
                                                  (transaction\<lparr>mtx := m3\<rparr>))
                                           | (m3, True) \<Rightarrow>
                                               (Ok,
                                                set_tx (tm\<lparr>resourceLockManager := locks1,
                                                            waitsForGraph := g2\<rparr>) cid
                                                  (transaction\<lparr>mtx := mutex_Unlock m3,
                                                     lockedResources :=
                                                       (lockedResources transaction)
                                                         (newResource \<mapsto> lType)\<rparr>)))))))))"

text \<open>
  A manager in which client \<open>1\<close> began a transaction and locked the resource
  \<open>(t, 5)\<close> with the given lock type.
\<close>

definition tm_holding :: "LockType \<Rightarrow> nat TransactionManager" where
  "tm_holding lType =
     snd (Lock (snd (Begin NewTransactionManager 1)) [1] 1 ''t'' 5 lType)"

text \<open>
  The manager after a sequence of calls from a new one, each call by its own client
  and a call that waits left waiting.
\<close>

datatype 'c tm_call = CallBegin 'c | CallLock 'c string int LockType

fun tm_step :: "'c list \<Rightarrow> 'c TransactionManager \<Rightarrow> 'c tm_call \<Rightarrow> 'c TransactionManager" where
  "tm_step order tm (CallBegin c) = snd (Begin tm c)"
| "tm_step order tm (CallLock c table k lType) = snd (Lock tm order c table k lType)"

definition tm_after :: "'c list \<Rightarrow> 'c tm_call list \<Rightarrow> 'c TransactionManager" where
  "tm_after order calls = foldl (tm_step order) NewTransactionManager calls"

text \<open>
  Clients 1 and 2 hold write locks on \<open>(t, 1)\<close> and \<open>(t, 2)\<close>, client 3 holds a lock of
  the given type on \<open>(t, 3)\<close>, and client 1 waits for \<open>(t, 2)\<close>.
\<close>

definition waiting_calls :: "LockType \<Rightarrow> nat tm_call list" where
  "waiting_calls lType =
     [CallBegin 1, CallBegin 2, CallBegin 3, CallLock 1 ''t'' 1 W_LOCK,
      CallLock 2 ''t'' 2 W_LOCK, CallLock 3 ''t'' 3 lType, CallLock 1 ''t'' 2 W_LOCK]"

definition waiting_manager :: "LockType \<Rightarrow> nat TransactionManager" where
  "waiting_manager lType = tm_after [1, 2, 3] (waiting_calls lType)"

text \<open>
  After that, client 2 asks for \<open>(t, 1)\<close>, which is refused as a deadlock, and then for
  \<open>(t, 4)\<close>: that call waits for the write lock of its own transaction.
\<close>

definition stuck_manager :: "LockType \<Rightarrow> nat TransactionManager" where
  "stuck_manager lType =
     tm_after [1, 2, 3]
       (waiting_calls lType @ [CallLock 2 ''t'' 1 W_LOCK, CallLock 2 ''t'' 4 W_LOCK])"

section \<open>Pager (pkg/pager, pkg/list, pkg/config)\<close>

definition MaxPagesInBuffer :: nat where
  "MaxPagesInBuffer = 32"

definition NoPage :: int where
  "NoPage = - 1"

text \<open>
  \<open>Page\<close>: page number, pin count, dirty flag and the bytes of the page; \<open>'d\<close> is the
  content of the byte buffer as the index layered on the pager reads it. The pager
  pre-allocates \<open>MaxPagesInBuffer\<close> \<open>Page\<close> structs (frames); a \<open>*Page\<close> is the index of
  its frame.
\<close>

record 'd Page =
  pagenum :: int
  pinCount :: int
  dirty :: bool
  data :: 'd

text \<open>
  \<open>Pager\<close>. Each of the three intrusive lists is the sequence of frames its links hold,
  head first. A link holds one frame for as long as it lives, so the page table, which
  maps a page number to a link, is a map to the frame of that link; \<open>link.GetList()\<close> is
  the list the frame is in and \<open>link.PopSelf()\<close> takes the frame out of it. \<open>disk\<close> is the
  backing file, by page number.
\<close>

record 'd Pager =
  numPages :: int
  freeList :: "nat list"
  unpinnedList :: "nat list"
  pinnedList :: "nat list"
  pageTable :: "int \<rightharpoonup> nat"
  pages :: "nat \<Rightarrow> 'd Page"
  disk :: "int \<rightharpoonup> 'd"

datatype pager_error =
  ErrRanOutOfPages | InvalidPagenum | ReadFailed | PinCountNegative | NilLinkDereference

text \<open>
  \<open>New\<close> followed by \<open>Open\<close> on a file that holds \<open>n\<close> pages: every frame is in the free
  list with page number \<open>NoPage\<close>; \<open>zero\<close> is the content of a zeroed buffer.
\<close>

definition New :: "'d \<Rightarrow> int \<Rightarrow> (int \<rightharpoonup> 'd) \<Rightarrow> 'd Pager" where
  "New zero n file =
     \<lparr>numPages = n, freeList = [0..<MaxPagesInBuffer], unpinnedList = [], pinnedList = [],
      pageTable = Map.empty,
      pages = (\<lambda>f. \<lparr>pagenum = NoPage, pinCount = 0, dirty = False, data = zero\<rparr>),
      disk = file\<rparr>"

definition update_page :: "'d Pager \<Rightarrow> nat \<Rightarrow> ('d Page \<Rightarrow> 'd Page) \<Rightarrow> 'd Pager" where
  "update_page p f upd = p\<lparr>pages := (pages p)(f := upd (pages p f))\<rparr>"

text \<open>\<open>FlushPage\<close>: a dirty page is written at its offset and marked clean.\<close>

definition FlushPage :: "'d Pager \<Rightarrow> nat \<Rightarrow> 'd Pager" where
  "FlushPage p f =
     (if dirty (pages p f)
      then update_page (p\<lparr>disk := (disk p)(pagenum (pages p f) \<mapsto> data (pages p f))\<rparr>) f
             (\<lambda>pg. pg\<lparr>dirty := False\<rparr>)
      else p)"

text \<open>\<open>FlushAllPages\<close> maps \<open>FlushPage\<close> over the pinned list, then the unpinned list.\<close>

definition FlushAllPages :: "'d Pager \<Rightarrow> 'd Pager" where
  "FlushAllPages p = foldl FlushPage p (pinnedList p @ unpinnedList p)"

text \<open>
  \<open>newPage\<close>: the head of the free list if there is one; else the head of the unpinned
  list, flushed and dropped from the page table; else the out-of-pages error. The
  frame gets the page number, a clean flag and pin count 1.
\<close>

definition newPage :: "'d Pager \<Rightarrow> int \<Rightarrow> pager_error + (nat \<times> 'd Pager)" where
  "newPage p pn =
     (case freeList p of
        f # rest \<Rightarrow>
          Inr (f, update_page (p\<lparr>freeList := rest\<rparr>) f
                    (\<lambda>pg. pg\<lparr>pagenum := pn, dirty := False, pinCount := 1\<rparr>))
      | [] \<Rightarrow>
          (case unpinnedList p of
             f # rest \<Rightarrow>
               (let p1 = FlushPage (p\<lparr>unpinnedList := rest\<rparr>) f;
                    p2 = p1\<lparr>pageTable := (pageTable p1)(pagenum (pages p1 f) := None)\<rparr>
                in Inr (f, update_page p2 f
                             (\<lambda>pg. pg\<lparr>pagenum := pn, dirty := False, pinCount := 1\<rparr>)))
           | [] \<Rightarrow> Inl ErrRanOutOfPages))"

definition GetNewPage :: "'d Pager \<Rightarrow> (pager_error + nat) \<times> 'd Pager" where
  "GetNewPage p =
     (case newPage p (numPages p) of
        Inl e \<Rightarrow> (Inl e, p)
      | Inr (f, p1) \<Rightarrow>
          (let p2 = update_page p1 f (\<lambda>pg. pg\<lparr>dirty := True\<rparr>);
               p3 = p2\<lparr>pinnedList := pinnedList p2 @ [f]\<rparr>;
               p4 = p3\<lparr>pageTable := (pageTable p3)(numPages p3 \<mapsto> f)\<rparr>
           in (Inr f, p4\<lparr>numPages := numPages p4 + 1\<rparr>)))"

text \<open>
  \<open>fillPageFromDisk\<close>: the bytes stored for the page replace the buffer; at end of file
  nothing is read and the buffer keeps its bytes.
\<close>

definition fillPageFromDisk :: "'d Pager \<Rightarrow> nat \<Rightarrow> 'd Pager" where
  "fillPageFromDisk p f =
     (case disk p (pagenum (pages p f)) of
        Some d \<Rightarrow> update_page p f (\<lambda>pg. pg\<lparr>data := d\<rparr>)
      | None \<Rightarrow> p)"

text \<open>
  \<open>GetPage\<close>; \<open>read_ok\<close> tells whether the read from the file succeeds, if the call comes
  to read.
\<close>

definition GetPage :: "'d Pager \<Rightarrow> int \<Rightarrow> bool \<Rightarrow> (pager_error + nat) \<times> 'd Pager" where
  "GetPage p pn read_ok =
     (if pn < 0 \<or> pn > numPages p - 1 then (Inl InvalidPagenum, p)
      else case pageTable p pn of
        Some f \<Rightarrow>
          (let p1 = (if f \<in> set (unpinnedList p)
                     then p\<lparr>unpinnedList := remove1 f (unpinnedList p),
                            pinnedList := pinnedList p @ [f],
                            pageTable := (pageTable p)(pn \<mapsto> f)\<rparr>
                     else p)
           in (Inr f, update_page p1 f (\<lambda>pg. pg\<lparr>pinCount := pinCount pg + 1\<rparr>)))
      | None \<Rightarrow>
          (case newPage p pn of
             Inl e \<Rightarrow> (Inl e, p)
           | Inr (f, p1) \<Rightarrow>
               (let p2 = update_page p1 f (\<lambda>pg. pg\<lparr>dirty := False\<rparr>)
                in if \<not> read_ok then (Inl ReadFailed, p2\<lparr>freeList := freeList p2 @ [f]\<rparr>)
                   else (let p3 = fillPageFromDisk p2 f;
                             p4 = p3\<lparr>pinnedList := pinnedList p3 @ [f]\<rparr>
                         in (Inr f, p4\<lparr>pageTable := (pageTable p4)(pn \<mapsto> f)\<rparr>)))))"

text \<open>\<open>link.PopSelf()\<close> for the link of frame \<open>g\<close>: the frame leaves the list it is in.\<close>

definition PopSelf :: "'d Pager \<Rightarrow> nat \<Rightarrow> 'd Pager" where
  "PopSelf p g =
     (if g \<in> set (pinnedList p) then p\<lparr>pinnedList := remove1 g (pinnedList p)\<rparr>
      else if g \<in> set (unpinnedList p) then p\<lparr>unpinnedList := remove1 g (unpinnedList p)\<rparr>
      else p\<lparr>freeList := remove1 g (freeList p)\<rparr>)"

text \<open>
  \<open>PutPage\<close>: the pin count goes down by one. At 0 the link stored for the page's number
  is popped and the page pushed on the unpinned list (no link stored: a nil
  dereference); below 0 the call returns the pin-count error.
\<close>

definition PutPage :: "'d Pager \<Rightarrow> nat \<Rightarrow> (pager_error + unit) \<times> 'd Pager" where
  "PutPage p f =
     (let ret = pinCount (pages p f) - 1;
          p1 = update_page p f (\<lambda>pg. pg\<lparr>pinCount := ret\<rparr>)
      in if ret = 0
         then (case pageTable p1 (pagenum (pages p1 f)) of
                 None \<Rightarrow> (Inl NilLinkDereference, p1)
               | Some g \<Rightarrow>
                   (let p2 = PopSelf p1 g;
                        p3 = p2\<lparr>unpinnedList := unpinnedList p2 @ [f]\<rparr>
                    in (Inr (), p3\<lparr>pageTable := (pageTable p3)(pagenum (pages p3 f) \<mapsto> f)\<rparr>)))
         else if ret < 0 then (Inl PinCountNegative, p1)
         else (Inr (), p1))"

text \<open>
  The calls of the pager's interface. \<open>PutPage\<close> takes a \<open>*Page\<close>; a caller has one from
  \<open>GetNewPage\<close> or \<open>GetPage\<close> and, by the pager's contract, holds its own reference to
  it: the call is admissible when the page is held in the buffer, that is, its frame is
  in the pinned or the unpinned list.
\<close>

datatype pager_call =
  CallGetNewPage | CallGetPage int bool | CallPutPage nat | CallFlushPage nat | CallFlushAllPages

fun pager_step :: "'d Pager \<Rightarrow> pager_call \<Rightarrow> 'd Pager" where
  "pager_step p CallGetNewPage = snd (GetNewPage p)"
| "pager_step p (CallGetPage pn read_ok) = snd (GetPage p pn read_ok)"
| "pager_step p (CallPutPage f) = snd (PutPage p f)"
| "pager_step p (CallFlushPage f) = FlushPage p f"
| "pager_step p CallFlushAllPages = FlushAllPages p"

fun admissible :: "'d Pager \<Rightarrow> pager_call \<Rightarrow> bool" where
  "admissible p (CallPutPage f) = (f \<in> set (pinnedList p) \<or> f \<in> set (unpinnedList p))"
| "admissible p c = True"

text \<open>The pager after a sequence of calls; \<open>None\<close> when one of them is not admissible.\<close>

fun pager_run :: "'d Pager \<Rightarrow> pager_call list \<Rightarrow> 'd Pager option" where
  "pager_run p [] = Some p"
| "pager_run p (c # cs) = (if admissible p c then pager_run (pager_step p c) cs else None)"

text \<open>The invariant of the claim: every frame is in exactly one of the three lists.\<close>

definition frames_in_one_list :: "'d Pager \<Rightarrow> bool" where
  "frames_in_one_list p =
     (distinct (freeList p @ unpinnedList p @ pinnedList p)
      \<and> set (freeList p @ unpinnedList p @ pinnedList p) = {0..<MaxPagesInBuffer})"

text \<open>Every page-table entry points to a frame in the pinned or the unpinned list.\<close>

definition table_targets_buffered :: "'d Pager \<Rightarrow> bool" where
  "table_targets_buffered p =
     (\<forall>pn f. pageTable p pn = Some f \<longrightarrow> f \<in> set (pinnedList p) \<or> f \<in> set (unpinnedList p))"

text \<open>
  The invariant the pager keeps, of which the claim's is a part, stated on the lists
  \<open>free\<close>, \<open>unp\<close>, \<open>pin\<close>, the page table \<open>pt\<close>, the page number \<open>pnf g\<close> of each frame
  and the number of pages \<open>n\<close>: the lists split the set \<open>F\<close> of frames, a page-table
  entry points to a buffered frame that carries the entry's page number, which is below
  \<open>n\<close>, and a buffered frame is the page-table entry of its own page number.
\<close>

definition frames_ok ::
  "nat set \<Rightarrow> nat list \<Rightarrow> nat list \<Rightarrow> nat list \<Rightarrow> (int \<rightharpoonup> nat) \<Rightarrow> (nat \<Rightarrow> int) \<Rightarrow> int
     \<Rightarrow> bool" where
  "frames_ok F free unp pin pt pnf n =
     (distinct (free @ unp @ pin) \<and> set (free @ unp @ pin) = F
      \<and> (\<forall>pn g. pt pn = Some g \<longrightarrow> (g \<in> set pin \<or> g \<in> set unp) \<and> pnf g = pn \<and> pn < n)
      \<and> (\<forall>g. g \<in> set pin \<or> g \<in> set unp \<longrightarrow> pt (pnf g) = Some g))"

definition pager_ok_on :: "nat set \<Rightarrow> 'd Pager \<Rightarrow> bool" where
  "pager_ok_on F p =
     frames_ok F (freeList p) (unpinnedList p) (pinnedList p) (pageTable p)
       (\<lambda>g. pagenum (pages p g)) (numPages p)"

definition pager_ok :: "'d Pager \<Rightarrow> bool" where
  "pager_ok p = pager_ok_on {0..<MaxPagesInBuffer} p"

text \<open>A sequence of calls on a new pager over an empty file, and the pager after \<open>k\<close>
  calls of \<open>GetNewPage\<close> on it, none of the pages put back.\<close>

definition pager_example_calls :: "pager_call list" where
  "pager_example_calls =
     [CallGetNewPage, CallGetNewPage, CallPutPage 0, CallGetPage 0 True, CallGetPage 1 True,
      CallPutPage 1, CallPutPage 1, CallFlushPage 0, CallFlushAllPages, CallGetPage 5 True]"

definition pinned_pager :: "'d \<Rightarrow> nat \<Rightarrow> 'd Pager" where
  "pinned_pager zero k =
     \<lparr>numPages = int k, freeList = [k..<MaxPagesInBuffer], unpinnedList = [],
      pinnedList = [0..<k],
      pageTable = (\<lambda>pn. if 0 \<le> pn \<and> pn < int k then Some (nat pn) else None),
      pages = (\<lambda>f. if f < k then \<lparr>pagenum = int f, pinCount = 1, dirty = True, data = zero\<rparr>
                    else \<lparr>pagenum = NoPage, pinCount = 0, dirty = False, data = zero\<rparr>),
      disk = Map.empty\<rparr>"


section \<open>Extendible hash table (pkg/hash)\<close>

text \<open>An \<open>Entry\<close> is the pair \<open>(Key, Value)\<close> of two \<open>int64\<close>.\<close>

type_synonym Entry = "int \<times> int"

text \<open>
  \<open>MAX_BUCKET_SIZE = (PAGESIZE - BUCKET_HEADER_SIZE) / ENTRYSIZE\<close> with a page of 4096
  bytes, a header of two padded varints of 10 bytes and entries of 20 bytes.
\<close>

definition MAX_BUCKET_SIZE :: int where
  "MAX_BUCKET_SIZE = (4096 - (10 + 10)) div (10 * 2)"

text \<open>
  The bytes of a bucket page, as the bucket code reads them: the local depth, the
  number of keys, and the entry slots by index; the page has room for the slots below
  \<open>MAX_BUCKET_SIZE\<close>. A zeroed page reads as depth 0, no keys and zero entries.
\<close>

record BucketPage =
  pg_localDepth :: int
  pg_numKeys :: int
  pg_entries :: "nat \<Rightarrow> Entry"

definition zero_page :: BucketPage where
  "zero_page =
     \<lparr>pg_localDepth = 0, pg_numKeys = 0, pg_entries = (\<lambda>i. (0, 0))\<rparr>"

text \<open>\<open>HashBucket\<close>: the cached header fields and the page (its frame).\<close>

record HashBucket =
  localDepth :: int
  numKeys :: int
  page :: nat

text \<open>\<open>HashTable\<close>: the global depth and the slice of bucket page numbers.\<close>

record HashTable =
  globalDepth :: int
  buckets :: "int list"

datatype hash_error =
  PagerError pager_error | KeyNotFound | NilDereference | IndexOutOfRange

text \<open>
  \<open>powInt\<close> goes through \<open>math.Pow\<close> on floats and converts back; for base 2 the result
  is exact as long as an \<open>int64\<close> holds it (exponents 0 to 62), and a negative exponent
  gives a fraction that converts to 0.
\<close>

definition powInt :: "int \<Rightarrow> int \<Rightarrow> int" where
  "powInt x y = (if 0 \<le> y then x ^ nat y else 0)"

text \<open>Go's \<open>%\<close> on signed integers truncates towards zero.\<close>

definition go_rem :: "int \<Rightarrow> int \<Rightarrow> int" where
  "go_rem a b = sgn a * (\<bar>a\<bar> mod \<bar>b\<bar>)"

text \<open>
  \<open>getHash\<close>: \<open>hasher key\<close> is the 64-bit hash of the varint bytes of the key (the hash
  library is outside this repository, so the function is a parameter). Read as an
  \<open>int64\<close>, a negative hash is multiplied by \<open>-1\<close>, which wraps for the least \<open>int64\<close>;
  the result is the remainder by the size \<open>sz\<close>.
\<close>

definition getHash :: "(int \<Rightarrow> 64 word) \<Rightarrow> int \<Rightarrow> int \<Rightarrow> int" where
  "getHash hasher key sz =
     (let hash = hasher key;
          hash1 = (if sint hash < 0 then hash * (- 1) else hash)
      in go_rem (sint hash1) sz)"

definition Hasher :: "(int \<Rightarrow> 64 word) \<Rightarrow> int \<Rightarrow> int \<Rightarrow> int" where
  "Hasher hasher key depth = getHash hasher key (powInt 2 depth)"

text \<open>\<open>page.Update\<close> writes into the byte buffer and marks the page dirty.\<close>

definition page_Update :: "'d Pager \<Rightarrow> nat \<Rightarrow> ('d \<Rightarrow> 'd) \<Rightarrow> 'd Pager" where
  "page_Update p f upd = update_page p f (\<lambda>pg. pg\<lparr>dirty := True, data := upd (data pg)\<rparr>)"

definition updateLocalDepth ::
  "BucketPage Pager \<Rightarrow> HashBucket \<Rightarrow> int \<Rightarrow> HashBucket \<times> BucketPage Pager" where
  "updateLocalDepth p b newDepth =
     (b\<lparr>localDepth := newDepth\<rparr>,
      page_Update p (page b) (\<lambda>d. d\<lparr>pg_localDepth := newDepth\<rparr>))"

definition updateNumKeys ::
  "BucketPage Pager \<Rightarrow> HashBucket \<Rightarrow> int \<Rightarrow> HashBucket \<times> BucketPage Pager" where
  "updateNumKeys p b newNumKeys =
     (b\<lparr>numKeys := newNumKeys\<rparr>,
      page_Update p (page b) (\<lambda>d. d\<lparr>pg_numKeys := newNumKeys\<rparr>))"

text \<open>
  \<open>modifyEntry\<close> and \<open>getEntry\<close> address slot \<open>index\<close> of the page; the callers below
  check that the slot lies in the page where Go would panic on the slice bounds.
\<close>

definition modifyEntry :: "BucketPage Pager \<Rightarrow> nat \<Rightarrow> int \<Rightarrow> Entry \<Rightarrow> BucketPage Pager" where
  "modifyEntry p f index e =
     page_Update p f (\<lambda>d. d\<lparr>pg_entries := (pg_entries d)(nat index := e)\<rparr>)"

definition getEntry :: "BucketPage Pager \<Rightarrow> nat \<Rightarrow> int \<Rightarrow> Entry" where
  "getEntry p f index = pg_entries (data (pages p f)) (nat index)"

text \<open>The entries in the first \<open>n\<close> slots of the page in frame \<open>f\<close>.\<close>

definition bucket_entries :: "BucketPage Pager \<Rightarrow> nat \<Rightarrow> int \<Rightarrow> Entry list" where
  "bucket_entries p f n = map (\<lambda>i. getEntry p f (int i)) [0..<nat n]"

definition pageToBucket :: "BucketPage Pager \<Rightarrow> nat \<Rightarrow> HashBucket" where
  "pageToBucket p f =
     \<lparr>localDepth = pg_localDepth (data (pages p f)),
      numKeys = pg_numKeys (data (pages p f)), page = f\<rparr>"

text \<open>
  \<open>newHashBucket\<close>: a new page from the pager, a bucket struct with the given depth and
  no keys, and the depth written to the page.
\<close>

definition newHashBucket ::
  "BucketPage Pager \<Rightarrow> int \<Rightarrow> (pager_error + HashBucket) \<times> BucketPage Pager" where
  "newHashBucket p depth =
     (case GetNewPage p of
        (Inl e, p1) \<Rightarrow> (Inl e, p1)
      | (Inr newPg, p1) \<Rightarrow>
          (let (bucket, p2) =
                 updateLocalDepth p1 \<lparr>localDepth = depth, numKeys = 0, page = newPg\<rparr> depth
           in (Inr bucket, p2)))"

text \<open>
  The loop of \<open>NewHashTable\<close> over the \<open>n\<close> remaining slots of the directory: a new bucket,
  its page number stored in the slot, the page put back.
\<close>

fun new_buckets ::
  "nat \<Rightarrow> int \<Rightarrow> BucketPage Pager \<Rightarrow> (pager_error + int list) \<times> BucketPage Pager" where
  "new_buckets 0 depth p = (Inr [], p)"
| "new_buckets (Suc n) depth p =
     (case newHashBucket p depth of
        (Inl e, p1) \<Rightarrow> (Inl e, p1)
      | (Inr bucket, p1) \<Rightarrow>
          (let pn = pagenum (pages p1 (page bucket));
               p2 = snd (PutPage p1 (page bucket))
           in case new_buckets n depth p2 of
                (Inl e, p3) \<Rightarrow> (Inl e, p3)
              | (Inr pns, p3) \<Rightarrow> (Inr (pn # pns), p3)))"

definition NewHashTable ::
  "BucketPage Pager \<Rightarrow> (pager_error + HashTable) \<times> BucketPage Pager" where
  "NewHashTable p =
     (let depth = 2
      in case new_buckets (nat (powInt 2 depth)) depth p of
           (Inl e, p1) \<Rightarrow> (Inl e, p1)
         | (Inr pns, p1) \<Rightarrow> (Inr \<lparr>globalDepth = depth, buckets = pns\<rparr>, p1))"

definition ExtendTable :: "HashTable \<Rightarrow> HashTable" where
  "ExtendTable t = t\<lparr>globalDepth := globalDepth t + 1, buckets := buckets t @ buckets t\<rparr>"

text \<open>
  \<open>GetAndLockBucket\<close>: the page number in directory slot \<open>hash\<close>, fetched from the pager
  (\<open>read_ok\<close>: whether a read from the file succeeds, if it comes to one).
\<close>

definition GetAndLockBucket ::
  "HashTable \<Rightarrow> BucketPage Pager \<Rightarrow> int \<Rightarrow> bool \<Rightarrow> (hash_error + HashBucket) \<times> BucketPage Pager" where
  "GetAndLockBucket t p hash read_ok =
     (if hash < 0 \<or> hash \<ge> int (length (buckets t)) then (Inl IndexOutOfRange, p)
      else case GetPage p (buckets t ! nat hash) read_ok of
             (Inl e, p1) \<Rightarrow> (Inl (PagerError e), p1)
           | (Inr f, p1) \<Rightarrow> (Inr (pageToBucket p1 f), p1))"

text \<open>
  \<open>HashBucket.Insert\<close> writes the entry in slot \<open>numKeys\<close> and reports whether the bucket
  has reached \<open>MAX_BUCKET_SIZE\<close>; a slot outside the page is a slice-bounds panic.
\<close>

definition bucket_Insert ::
  "BucketPage Pager \<Rightarrow> HashBucket \<Rightarrow> int \<Rightarrow> int
     \<Rightarrow> (hash_error + bool) \<times> HashBucket \<times> BucketPage Pager" where
  "bucket_Insert p b key val =
     (if numKeys b < 0 \<or> numKeys b \<ge> MAX_BUCKET_SIZE then (Inl IndexOutOfRange, b, p)
      else (let p1 = modifyEntry p (page b) (numKeys b) (key, val);
                (b2, p2) = updateNumKeys p1 b (numKeys b + 1)
            in (Inr (numKeys b2 \<ge> MAX_BUCKET_SIZE), b2, p2)))"

text \<open>
  The redistribution loop of \<open>split\<close> over the saved entries: an entry whose hash at the
  new depth is \<open>newHash\<close> goes to the next slot of the new bucket, any other to the next
  slot of the old one. The state is the pager and the two counters.
\<close>

fun redistribute ::
  "(int \<Rightarrow> 64 word) \<Rightarrow> int \<Rightarrow> int \<Rightarrow> nat \<Rightarrow> nat \<Rightarrow> Entry list
     \<Rightarrow> BucketPage Pager \<times> int \<times> int \<Rightarrow> BucketPage Pager \<times> int \<times> int" where
  "redistribute hasher depth newHash old new [] st = st"
| "redistribute hasher depth newHash old new (e # es) (p, oldNKeys, newNKeys) =
     (if Hasher hasher (fst e) depth = newHash
      then redistribute hasher depth newHash old new es
             (modifyEntry p new newNKeys e, oldNKeys, newNKeys + 1)
      else redistribute hasher depth newHash old new es
             (modifyEntry p old oldNKeys e, oldNKeys + 1, newNKeys))"

text \<open>
  The loop \<open>for i := newHash; i < powInt(2, globalDepth); i += powInt(2, power)\<close> that
  points directory slots to the new page. The step is a power of two, so positive.
\<close>

function repoint :: "int list \<Rightarrow> int \<Rightarrow> int \<Rightarrow> int \<Rightarrow> int \<Rightarrow> int list" where
  "repoint bs i bound step newPN =
     (if i < bound \<and> 0 < step \<and> 0 \<le> i
      then repoint (bs[nat i := newPN]) (i + step) bound step newPN
      else bs)"
  by pat_completeness auto
termination
  by (relation "measure (\<lambda>(bs, i, bound, step, newPN). nat (bound - i))") auto

declare repoint.simps [simp del]

text \<open>
  One level of \<open>split\<close>, up to the check for a further split: the result is the error
  the level ends with, or the old bucket, the new bucket, the two indices and the two
  counts. An allocation failure surfaces in \<open>newBucket.WLock()\<close>, called on the nil
  bucket before the error is looked at.
\<close>

definition split_level ::
  "(int \<Rightarrow> 64 word) \<Rightarrow> HashTable \<Rightarrow> BucketPage Pager \<Rightarrow> HashBucket \<Rightarrow> int
     \<Rightarrow> (hash_error + (HashBucket \<times> HashBucket \<times> int \<times> int \<times> int \<times> int))
        \<times> HashTable \<times> BucketPage Pager" where
  "split_level hasher t p bucket hash =
     (let oldHash = go_rem hash (powInt 2 (localDepth bucket));
          newHash = oldHash + powInt 2 (localDepth bucket);
          t1 = (if localDepth bucket = globalDepth t then ExtendTable t else t);
          (bucket1, p1) = updateLocalDepth p bucket (localDepth bucket + 1)
      in case newHashBucket p1 (localDepth bucket1) of
           (Inl e, p2) \<Rightarrow> (Inl NilDereference, t1, p2)
         | (Inr newBucket, p2) \<Rightarrow>
             if numKeys bucket1 < 0 \<or> numKeys bucket1 > MAX_BUCKET_SIZE
             then (Inl IndexOutOfRange, t1, p2)
             else
               (let tmpEntries = bucket_entries p2 (page bucket1) (numKeys bucket1);
                    (p3, oldNKeys, newNKeys) =
                      redistribute hasher (localDepth bucket1) newHash
                        (page bucket1) (page newBucket) tmpEntries (p2, 0, 0);
                    (bucket2, p4) = updateNumKeys p3 bucket1 oldNKeys;
                    (newBucket2, p5) = updateNumKeys p4 newBucket newNKeys;
                    pwr = localDepth bucket2;
                    t2 = t1\<lparr>buckets := repoint (buckets t1) newHash
                                (powInt 2 (globalDepth t1)) (powInt 2 pwr)
                                (pagenum (pages p5 (page newBucket2)))\<rparr>
                in (Inr (bucket2, newBucket2, oldHash, newHash, oldNKeys, newNKeys), t2, p5)))"

text \<open>
  \<open>split\<close>: one level, then a further split of the old bucket if it still holds
  \<open>MAX_BUCKET_SIZE\<close> keys, else of the new one if that does; the deferred \<open>PutPage\<close> of the
  new bucket's page runs when the level returns. The recursion need not end (equal
  hashes at every depth): \<open>None\<close> is a call that does not return.
\<close>

partial_function (option) split ::
  "(int \<Rightarrow> 64 word) \<Rightarrow> HashTable \<Rightarrow> BucketPage Pager \<Rightarrow> HashBucket \<Rightarrow> int
     \<Rightarrow> ((hash_error + unit) \<times> HashTable \<times> BucketPage Pager) option" where
  "split hasher t p bucket hash =
     (case split_level hasher t p bucket hash of
        (Inl e, t1, p1) \<Rightarrow> Some (Inl e, t1, p1)
      | (Inr (bucket2, newBucket2, oldHash, newHash, oldNKeys, newNKeys), t2, p5) \<Rightarrow>
          Option.bind
            (if oldNKeys \<ge> MAX_BUCKET_SIZE then split hasher t2 p5 bucket2 oldHash
             else if newNKeys \<ge> MAX_BUCKET_SIZE then split hasher t2 p5 newBucket2 newHash
             else Some (Inr (), t2, p5))
            (\<lambda>(r, t3, p6). Some (r, t3, snd (PutPage p6 (page newBucket2)))))"

text \<open>
  \<open>HashTable.Insert\<close>. When the bucket cannot be fetched, the deferred \<open>bucket.WUnlock()\<close>
  runs on the nil bucket.
\<close>

definition hash_Insert ::
  "(int \<Rightarrow> 64 word) \<Rightarrow> HashTable \<Rightarrow> BucketPage Pager \<Rightarrow> int \<Rightarrow> int \<Rightarrow> bool
     \<Rightarrow> ((hash_error + unit) \<times> HashTable \<times> BucketPage Pager) option" where
  "hash_Insert hasher t p key val read_ok =
     (let hash = Hasher hasher key (globalDepth t)
      in case GetAndLockBucket t p hash read_ok of
           (Inl e, p1) \<Rightarrow> Some (Inl NilDereference, t, p1)
         | (Inr bucket, p1) \<Rightarrow>
             (case bucket_Insert p1 bucket key val of
                (Inl e, b2, p2) \<Rightarrow> Some (Inl e, t, snd (PutPage p2 (page b2)))
              | (Inr False, b2, p2) \<Rightarrow> Some (Inr (), t, snd (PutPage p2 (page b2)))
              | (Inr True, b2, p2) \<Rightarrow>
                  Option.bind (split hasher t p2 b2 hash)
                    (\<lambda>(r, t3, p3). Some (r, t3, snd (PutPage p3 (page b2))))))"

text \<open>
  \<open>HashBucket.Delete\<close>: the first slot holding the key is closed by moving the later
  entries one slot left; no such slot is the error "key not found, delete aborted".
\<close>

definition bucket_index_of :: "BucketPage Pager \<Rightarrow> HashBucket \<Rightarrow> int \<Rightarrow> nat option" where
  "bucket_index_of p b key =
     find (\<lambda>i. fst (getEntry p (page b) (int i)) = key) [0..<nat (numKeys b)]"

definition bucket_Delete ::
  "BucketPage Pager \<Rightarrow> HashBucket \<Rightarrow> int \<Rightarrow> (hash_error + unit) \<times> HashBucket \<times> BucketPage Pager" where
  "bucket_Delete p b key =
     (case bucket_index_of p b key of
        None \<Rightarrow> (Inl KeyNotFound, b, p)
      | Some index \<Rightarrow>
          (let p1 = foldl (\<lambda>q i. modifyEntry q (page b) (int i) (getEntry q (page b) (int i + 1)))
                      p [index..<nat (numKeys b - 1)];
               (b2, p2) = updateNumKeys p1 b (numKeys b - 1)
           in (Inr (), b2, p2)))"

definition bucket_Update ::
  "BucketPage Pager \<Rightarrow> HashBucket \<Rightarrow> int \<Rightarrow> int \<Rightarrow> (hash_error + unit) \<times> BucketPage Pager" where
  "bucket_Update p b key newValue =
     (case bucket_index_of p b key of
        None \<Rightarrow> (Inl KeyNotFound, p)
      | Some index \<Rightarrow>
          (Inr (), modifyEntry p (page b) (int index)
                     (fst (getEntry p (page b) (int index)), newValue)))"

definition bucket_Find :: "BucketPage Pager \<Rightarrow> HashBucket \<Rightarrow> int \<Rightarrow> Entry option" where
  "bucket_Find p b key =
     map_option (\<lambda>i. getEntry p (page b) (int i)) (bucket_index_of p b key)"

text \<open>
  \<open>HashTable.Delete\<close>, \<open>Update\<close> and \<open>Find\<close>: the bucket of the key's hash at the global
  depth is fetched, the bucket operation runs, and the page is put back.
\<close>

definition hash_Delete ::
  "(int \<Rightarrow> 64 word) \<Rightarrow> HashTable \<Rightarrow> BucketPage Pager \<Rightarrow> int \<Rightarrow> bool
     \<Rightarrow> (hash_error + unit) \<times> BucketPage Pager" where
  "hash_Delete hasher t p key read_ok =
     (let hash = Hasher hasher key (globalDepth t)
      in case GetAndLockBucket t p hash read_ok of
           (Inl e, p1) \<Rightarrow> (Inl e, p1)
         | (Inr bucket, p1) \<Rightarrow>
             (case bucket_Delete p1 bucket key of
                (r, b2, p2) \<Rightarrow> (r, snd (PutPage p2 (page b2)))))"

definition hash_Update ::
  "(int \<Rightarrow> 64 word) \<Rightarrow> HashTable \<Rightarrow> BucketPage Pager \<Rightarrow> int \<Rightarrow> int \<Rightarrow> bool
     \<Rightarrow> (hash_error + unit) \<times> BucketPage Pager" where
  "hash_Update hasher t p key val read_ok =
     (let hash = Hasher hasher key (globalDepth t)
      in case GetAndLockBucket t p hash read_ok of
           (Inl e, p1) \<Rightarrow> (Inl e, p1)
         | (Inr bucket, p1) \<Rightarrow>
             (case bucket_Update p1 bucket key val of
                (r, p2) \<Rightarrow> (r, snd (PutPage p2 (page bucket)))))"

definition hash_Find ::
  "(int \<Rightarrow> 64 word) \<Rightarrow> HashTable \<Rightarrow> BucketPage Pager \<Rightarrow> int \<Rightarrow> bool
     \<Rightarrow> (hash_error + Entry) \<times> BucketPage Pager" where
  "hash_Find hasher t p key read_ok =
     (let hash = Hasher hasher key (globalDepth t)
      in if hash < 0 \<or> hash \<ge> int (length (buckets t)) then (Inl KeyNotFound, p)
         else case GetAndLockBucket t p hash read_ok of
                (Inl e, p1) \<Rightarrow> (Inl e, p1)
              | (Inr bucket, p1) \<Rightarrow>
                  (case bucket_Find p1 bucket key of
                     None \<Rightarrow> (Inl KeyNotFound, snd (PutPage p1 (page bucket)))
                   | Some e \<Rightarrow> (Inr e, snd (PutPage p1 (page bucket)))))"

text \<open>
  The header of the bucket on page \<open>pn\<close>, read from the page in the buffer: local depth
  and number of keys.
\<close>

definition bucket_header :: "BucketPage Pager \<Rightarrow> int \<Rightarrow> (int \<times> int) option" where
  "bucket_header p pn =
     map_option (\<lambda>f. (localDepth (pageToBucket p f), numKeys (pageToBucket p f)))
       (pageTable p pn)"


text \<open>
  A pager and table for the split of a full bucket: the table of \<open>NewHashTable\<close> on a
  new pager, page 0 fetched (so pinned), its bucket filled with \<open>MAX_BUCKET_SIZE\<close>
  entries whose keys are the multiples of 4.
\<close>

definition example_full_pager :: "BucketPage Pager" where
  "example_full_pager =
     page_Update (snd (GetPage (snd (NewHashTable (New zero_page 0 Map.empty))) 0 True)) 0
       (\<lambda>d. d\<lparr>pg_numKeys := MAX_BUCKET_SIZE, pg_entries := (\<lambda>i. (4 * int i, int i))\<rparr>)"

definition example_table :: HashTable where
  "example_table = \<lparr>globalDepth = 2, buckets = [0, 1, 2, 3]\<rparr>"

text \<open>
  A pager whose 32 frames hold the pinned pages 0 to 31, page 0 a bucket of local
  depth 2 with \<open>MAX_BUCKET_SIZE\<close> entries.
\<close>

definition full_buffer_pager :: "BucketPage Pager" where
  "full_buffer_pager =
     page_Update (pinned_pager zero_page 32) 0
       (\<lambda>d. \<lparr>pg_localDepth = 2, pg_numKeys = MAX_BUCKET_SIZE,
              pg_entries = (\<lambda>i. (4 * int i, int i))\<rparr>)"


section \<open>B+Tree leaf node (pkg/btree)\<close>

text \<open>
  \<open>ENTRIES_PER_LEAF_NODE = ((Pagesize - LEAF_NODE_HEADER_SIZE) / ENTRYSIZE) - 1\<close> with a
  page of 4096 bytes, a leaf header of 1 + 10 + 10 bytes and entries of 20 bytes.
\<close>

definition ENTRIES_PER_LEAF_NODE :: int where
  "ENTRIES_PER_LEAF_NODE = ((4096 - (1 + 10 + 10)) div (10 * 2)) - 1"

text \<open>
  The bytes of a node page, as the leaf code reads them: the node type byte (leaf or
  internal), the number of keys, the page number of the right sibling, and the entry
  slots by index; the page has room for the slots up to \<open>ENTRIES_PER_LEAF_NODE\<close>.
\<close>

record LeafPage =
  lp_leaf :: bool
  lp_numKeys :: int
  lp_rightSiblingPN :: int
  lp_entries :: "nat \<Rightarrow> Entry"

text \<open>\<open>LeafNode\<close>: the cached header fields, the cached right sibling and the page (its frame).\<close>

record LeafNode =
  ln_numKeys :: int
  ln_rightSiblingPN :: int
  ln_page :: nat

text \<open>\<open>Split\<close>: what a node reports to its parent after an insert.\<close>

record Split =
  isSplit :: bool
  split_key :: int
  leftPN :: int
  rightPN :: int

definition no_Split :: Split where
  "no_Split = \<lparr>isSplit = False, split_key = 0, leftPN = 0, rightPN = 0\<rparr>"

datatype btree_error = DuplicateKey | UpdateNonExistent | BTreePagerError pager_error

text \<open>\<open>initPage\<close> for a leaf: the page is zeroed, then the node type byte is set.\<close>

definition initPage_leaf :: "LeafPage Pager \<Rightarrow> nat \<Rightarrow> LeafPage Pager" where
  "initPage_leaf p f =
     page_Update p f
       (\<lambda>d. \<lparr>lp_leaf = True, lp_numKeys = 0, lp_rightSiblingPN = 0, lp_entries = (\<lambda>i. (0, 0))\<rparr>)"

definition pageToLeafNode :: "LeafPage Pager \<Rightarrow> nat \<Rightarrow> LeafNode" where
  "pageToLeafNode p f =
     \<lparr>ln_numKeys = lp_numKeys (data (pages p f)),
      ln_rightSiblingPN = lp_rightSiblingPN (data (pages p f)), ln_page = f\<rparr>"

definition createLeafNode ::
  "LeafPage Pager \<Rightarrow> (pager_error + LeafNode) \<times> LeafPage Pager" where
  "createLeafNode p =
     (case GetNewPage p of
        (Inl e, p1) \<Rightarrow> (Inl e, p1)
      | (Inr newPg, p1) \<Rightarrow>
          (let p2 = initPage_leaf p1 newPg in (Inr (pageToLeafNode p2 newPg), p2)))"

definition leaf_getEntry :: "LeafPage Pager \<Rightarrow> nat \<Rightarrow> int \<Rightarrow> Entry" where
  "leaf_getEntry p f index = lp_entries (data (pages p f)) (nat index)"

definition leaf_modifyEntry :: "LeafPage Pager \<Rightarrow> nat \<Rightarrow> int \<Rightarrow> Entry \<Rightarrow> LeafPage Pager" where
  "leaf_modifyEntry p f index e =
     page_Update p f (\<lambda>d. d\<lparr>lp_entries := (lp_entries d)(nat index := e)\<rparr>)"

definition leaf_getKeyAt :: "LeafPage Pager \<Rightarrow> nat \<Rightarrow> int \<Rightarrow> int" where
  "leaf_getKeyAt p f index = fst (leaf_getEntry p f index)"

definition leaf_getValueAt :: "LeafPage Pager \<Rightarrow> nat \<Rightarrow> int \<Rightarrow> int" where
  "leaf_getValueAt p f index = snd (leaf_getEntry p f index)"

text \<open>\<open>updateKeyAt\<close> keeps the value in the slot, \<open>updateValueAt\<close> keeps the key.\<close>

definition leaf_updateKeyAt :: "LeafPage Pager \<Rightarrow> nat \<Rightarrow> int \<Rightarrow> int \<Rightarrow> LeafPage Pager" where
  "leaf_updateKeyAt p f index newKey =
     leaf_modifyEntry p f index (newKey, leaf_getValueAt p f index)"

definition leaf_updateValueAt :: "LeafPage Pager \<Rightarrow> nat \<Rightarrow> int \<Rightarrow> int \<Rightarrow> LeafPage Pager" where
  "leaf_updateValueAt p f index newVal =
     leaf_modifyEntry p f index (leaf_getKeyAt p f index, newVal)"

definition leaf_updateNumKeys ::
  "LeafPage Pager \<Rightarrow> LeafNode \<Rightarrow> int \<Rightarrow> LeafNode \<times> LeafPage Pager" where
  "leaf_updateNumKeys p node newNumKeys =
     (node\<lparr>ln_numKeys := newNumKeys\<rparr>,
      page_Update p (ln_page node) (\<lambda>d. d\<lparr>lp_numKeys := newNumKeys\<rparr>))"

text \<open>\<open>setRightSibling\<close> returns the old right sibling.\<close>

definition setRightSibling ::
  "LeafPage Pager \<Rightarrow> LeafNode \<Rightarrow> int \<Rightarrow> int \<times> LeafNode \<times> LeafPage Pager" where
  "setRightSibling p node siblingPN =
     (ln_rightSiblingPN node, node\<lparr>ln_rightSiblingPN := siblingPN\<rparr>,
      page_Update p (ln_page node) (\<lambda>d. d\<lparr>lp_rightSiblingPN := siblingPN\<rparr>))"

text \<open>
  \<open>sort.Search(n, f)\<close> of the Go library: binary search for the least index in
  \<open>[0, n)\<close> at which \<open>f\<close> holds, \<open>n\<close> if there is none; \<open>bsearch f i j\<close> is its loop.
\<close>

function bsearch :: "(int \<Rightarrow> bool) \<Rightarrow> int \<Rightarrow> int \<Rightarrow> int" where
  "bsearch f i j =
     (if i < j
      then (let h = (i + j) div 2 in if \<not> f h then bsearch f (h + 1) j else bsearch f i h)
      else i)"
  by pat_completeness auto
termination
  by (relation "measure (\<lambda>(f, i, j). nat (j - i))") auto

declare bsearch.simps [simp del]

definition leaf_search :: "LeafPage Pager \<Rightarrow> LeafNode \<Rightarrow> int \<Rightarrow> int" where
  "leaf_search p node key =
     bsearch (\<lambda>idx. leaf_getKeyAt p (ln_page node) idx \<ge> key) 0 (ln_numKeys node)"

text \<open>
  The loop of \<open>insert\<close> that shifts the entries from \<open>numKeys - 1\<close> down to \<open>insertPos\<close>
  one slot to the right.
\<close>

function shift_right :: "LeafPage Pager \<Rightarrow> nat \<Rightarrow> int \<Rightarrow> int \<Rightarrow> LeafPage Pager" where
  "shift_right p f i insertPos =
     (if i \<ge> insertPos
      then (let p1 = leaf_updateKeyAt p f (i + 1) (leaf_getKeyAt p f i);
                p2 = leaf_updateValueAt p1 f (i + 1) (leaf_getValueAt p1 f i)
            in shift_right p2 f (i - 1) insertPos)
      else p)"
  by pat_completeness auto
termination
  by (relation "measure (\<lambda>(p, f, i, insertPos). nat (i - insertPos + 1))") auto

declare shift_right.simps [simp del]

text \<open>
  The loop of \<open>split\<close> that appends the entries of the node from slot \<open>i\<close> up to
  \<open>numKeys - 1\<close> to the new node.
\<close>

function transfer ::
  "LeafPage Pager \<Rightarrow> LeafNode \<Rightarrow> LeafNode \<Rightarrow> int \<Rightarrow> LeafNode \<times> LeafPage Pager" where
  "transfer p node newNode i =
     (if i < ln_numKeys node
      then (let p1 = leaf_updateKeyAt p (ln_page newNode) (ln_numKeys newNode)
                       (leaf_getKeyAt p (ln_page node) i);
                p2 = leaf_updateValueAt p1 (ln_page newNode) (ln_numKeys newNode)
                       (leaf_getValueAt p1 (ln_page node) i);
                (newNode1, p3) = leaf_updateNumKeys p2 newNode (ln_numKeys newNode + 1)
            in transfer p3 node newNode1 (i + 1))
      else (newNode, p))"
  by pat_completeness auto
termination
  by (relation "measure (\<lambda>(p, node, newNode, i). nat (ln_numKeys node - i))") auto

declare transfer.simps [simp del]

text \<open>
  \<open>LeafNode.split\<close>: a new leaf from the pager (its error is returned), threaded after
  the node in the sibling chain, receives the entries from the midpoint on; the node
  keeps \<open>midpoint\<close> keys. The page of the new leaf is put back when the call returns.
\<close>

definition leaf_split ::
  "LeafPage Pager \<Rightarrow> LeafNode \<Rightarrow> (btree_error + Split) \<times> LeafNode \<times> LeafPage Pager" where
  "leaf_split p node =
     (case createLeafNode p of
        (Inl e, p1) \<Rightarrow> (Inl (BTreePagerError e), node, p1)
      | (Inr newNode, p1) \<Rightarrow>
          (let (prevSiblingPN, node1, p2) =
                 setRightSibling p1 node (pagenum (pages p1 (ln_page newNode)));
               (old, newNode1, p3) = setRightSibling p2 newNode prevSiblingPN;
               midpoint = ln_numKeys node1 div 2;
               (newNode2, p4) = transfer p3 node1 newNode1 midpoint;
               (node2, p5) = leaf_updateNumKeys p4 node1 midpoint;
               result = \<lparr>isSplit = True,
                         split_key = leaf_getKeyAt p5 (ln_page newNode2) 0,
                         leftPN = pagenum (pages p5 (ln_page node2)),
                         rightPN = pagenum (pages p5 (ln_page newNode2))\<rparr>
           in (Inr result, node2, snd (PutPage p5 (ln_page newNode2)))))"

text \<open>
  \<open>LeafNode.insert\<close> (the locking calls left out): a key already in the leaf is updated
  or rejected; otherwise the entry is shift-inserted at its position, and the leaf is
  split once it holds \<open>ENTRIES_PER_LEAF_NODE\<close> keys.
\<close>

definition leaf_insert ::
  "LeafPage Pager \<Rightarrow> LeafNode \<Rightarrow> int \<Rightarrow> int \<Rightarrow> bool
     \<Rightarrow> (btree_error + Split) \<times> LeafNode \<times> LeafPage Pager" where
  "leaf_insert p node key val update =
     (let insertPos = leaf_search p node key
      in if insertPos < ln_numKeys node \<and> leaf_getKeyAt p (ln_page node) insertPos = key
         then (if update
               then (Inr no_Split, node, leaf_updateValueAt p (ln_page node) insertPos val)
               else (Inl DuplicateKey, node, p))
         else if update then (Inl UpdateNonExistent, node, p)
         else (let p1 = shift_right p (ln_page node) (ln_numKeys node - 1) insertPos;
                   (node2, p2) = leaf_updateNumKeys p1 node (ln_numKeys node + 1);
                   p3 = leaf_modifyEntry p2 (ln_page node2) insertPos (key, val)
               in if ln_numKeys node2 \<ge> ENTRIES_PER_LEAF_NODE then leaf_split p3 node2
                  else (Inr no_Split, node2, p3)))"

text \<open>The entries in the first \<open>n\<close> slots of the leaf page in frame \<open>f\<close>.\<close>

definition leaf_entries :: "LeafPage Pager \<Rightarrow> nat \<Rightarrow> int \<Rightarrow> Entry list" where
  "leaf_entries p f n = map (\<lambda>i. leaf_getEntry p f (int i)) [0..<nat n]"

text \<open>The list \<open>xs\<close> with \<open>x\<close> inserted before position \<open>pos\<close>.\<close>

definition insert_at :: "'a list \<Rightarrow> nat \<Rightarrow> 'a \<Rightarrow> 'a list" where
  "insert_at xs pos x = take pos xs @ [x] @ drop pos xs"


text \<open>
  A pager whose page 0, pinned, is a leaf one key short of \<open>ENTRIES_PER_LEAF_NODE\<close>,
  with the even numbers from 0 as keys and no right sibling.
\<close>

definition example_leaf_pager :: "LeafPage Pager" where
  "example_leaf_pager =
     page_Update
       (snd (GetNewPage (New \<lparr>lp_leaf = False, lp_numKeys = 0, lp_rightSiblingPN = 0,
                               lp_entries = (\<lambda>i. (0, 0))\<rparr> 0 Map.empty))) 0
       (\<lambda>d. \<lparr>lp_leaf = True, lp_numKeys = ENTRIES_PER_LEAF_NODE - 1, lp_rightSiblingPN = - 1,
              lp_entries = (\<lambda>i. (2 * int i, int i))\<rparr>)"


text \<open>
  The same leaf on page 0 of a pager whose 32 frames hold the pinned pages 0 to 31.
\<close>

definition full_leaf_pager :: "LeafPage Pager" where
  "full_leaf_pager =
     page_Update
       (pinned_pager \<lparr>lp_leaf = False, lp_numKeys = 0, lp_rightSiblingPN = 0,
                       lp_entries = (\<lambda>i. (0, 0))\<rparr> 32) 0
       (\<lambda>d. \<lparr>lp_leaf = True, lp_numKeys = ENTRIES_PER_LEAF_NODE - 1, lp_rightSiblingPN = - 1,
              lp_entries = (\<lambda>i. (2 * int i, int i))\<rparr>)"


section \<open>Strings (strconv, strings, fmt)\<close>

text \<open>
  \<open>strconv.FormatInt(i, 10)\<close>, which is what the verbs \<open>%v\<close> and \<open>%d\<close> print for an
  \<open>int64\<close>: the decimal digits, after a minus sign for a negative number.
\<close>

definition digit_char :: "nat \<Rightarrow> char" where
  "digit_char d = ''0123456789'' ! d"

function digits :: "nat \<Rightarrow> string" where
  "digits n = (if n < 10 then [digit_char n] else digits (n div 10) @ [digit_char (n mod 10)])"
  by pat_completeness auto
termination
  by (relation "measure id") auto

declare digits.simps [simp del]

definition FormatInt :: "int \<Rightarrow> string" where
  "FormatInt i = (if i < 0 then CHR ''-'' # digits (nat (- i)) else digits (nat i))"

text \<open>
  \<open>strconv.Atoi\<close> on a platform with 64-bit \<open>int\<close>: an optional sign and at least one
  decimal digit. The result is the value and whether the call returned no error; with
  a syntax error the value is 0, with a range error it is the nearest \<open>int64\<close>.
\<close>

definition isDigit :: "char \<Rightarrow> bool" where
  "isDigit c = (c \<in> set ''0123456789'')"

definition digit_val :: "char \<Rightarrow> nat" where
  "digit_val c = of_char c - 48"

definition digits_val :: "string \<Rightarrow> nat" where
  "digits_val ds = foldl (\<lambda>n c. 10 * n + digit_val c) 0 ds"

definition Atoi :: "string \<Rightarrow> int \<times> bool" where
  "Atoi s =
     (let (neg, ds) = (case s of
                         [] \<Rightarrow> (False, [])
                       | c # r \<Rightarrow> if c = CHR ''-'' then (True, r)
                                  else if c = CHR ''+'' then (False, r) else (False, s))
      in if ds = [] \<or> \<not> list_all isDigit ds then (0, False)
         else (let v = (if neg then - int (digits_val ds) else int (digits_val ds))
               in if v > 2 ^ 63 - 1 then (2 ^ 63 - 1, False)
                  else if v < - (2 ^ 63) then (- (2 ^ 63), False)
                  else (v, True)))"

text \<open>
  \<open>strings.Fields\<close>: the maximal runs of non-space characters. The space characters of
  ASCII text are tab, line feed, vertical tab, form feed, carriage return and space.
\<close>

definition isSpace :: "char \<Rightarrow> bool" where
  "isSpace c = (c \<in> set [CHR 0x09, CHR 0x0A, CHR 0x0B, CHR 0x0C, CHR 0x0D, CHR '' ''])"

fun fields_from :: "string \<Rightarrow> string \<Rightarrow> string list" where
  "fields_from cur [] = (if cur = [] then [] else [cur])"
| "fields_from cur (c # s) =
     (if isSpace c then (if cur = [] then fields_from [] s else cur # fields_from [] s)
      else fields_from (cur @ [c]) s)"

definition Fields :: "string \<Rightarrow> string list" where
  "Fields s = fields_from [] s"

text \<open>The word characters of the regular-expression class \<open>\\w\<close>.\<close>

definition isWord :: "char \<Rightarrow> bool" where
  "isWord c =
     (c \<in> set ''0123456789ABCDEFGHIJKLMNOPQRSTUVWXYZ_abcdefghijklmnopqrstuvwxyz'')"


section \<open>Database and its command handlers (pkg/database)\<close>

datatype IndexType = BTreeIndexType | HashIndexType

text \<open>
  An \<open>Index\<close> is a hash index (the table and its pager) or a B+Tree index. The B+Tree
  index is a value of a type \<open>'b\<close> with its operations taken as parameters, together
  with the hash function and the outcome of file reads.
\<close>

datatype 'b Index = HashIndex HashTable "BucketPage Pager" | BTreeIndex 'b

record 'b Env =
  env_hasher :: "int \<Rightarrow> 64 word"
  env_read_ok :: bool
  env_OpenIndex :: "'b option"
  env_bt_Find :: "'b \<Rightarrow> int \<Rightarrow> Entry option \<times> 'b"
  env_bt_Insert :: "'b \<Rightarrow> int \<Rightarrow> int \<Rightarrow> bool \<times> 'b"
  env_bt_Update :: "'b \<Rightarrow> int \<Rightarrow> int \<Rightarrow> bool \<times> 'b"
  env_bt_Delete :: "'b \<Rightarrow> int \<Rightarrow> bool \<times> 'b"

datatype index_error = HashError hash_error | BTreeError

definition index_Find ::
  "'b Env \<Rightarrow> 'b Index \<Rightarrow> int \<Rightarrow> (index_error + Entry) \<times> 'b Index" where
  "index_Find env idx key =
     (case idx of
        HashIndex t p \<Rightarrow>
          (case hash_Find (env_hasher env) t p key (env_read_ok env) of
             (Inl e, p1) \<Rightarrow> (Inl (HashError e), HashIndex t p1)
           | (Inr en, p1) \<Rightarrow> (Inr en, HashIndex t p1))
      | BTreeIndex b \<Rightarrow>
          (case env_bt_Find env b key of
             (None, b1) \<Rightarrow> (Inl BTreeError, BTreeIndex b1)
           | (Some en, b1) \<Rightarrow> (Inr en, BTreeIndex b1)))"

definition index_Insert ::
  "'b Env \<Rightarrow> 'b Index \<Rightarrow> int \<Rightarrow> int \<Rightarrow> ((index_error + unit) \<times> 'b Index) option" where
  "index_Insert env idx key val =
     (case idx of
        HashIndex t p \<Rightarrow>
          (case hash_Insert (env_hasher env) t p key val (env_read_ok env) of
             None \<Rightarrow> None
           | Some (Inl e, t1, p1) \<Rightarrow> Some (Inl (HashError e), HashIndex t1 p1)
           | Some (Inr u, t1, p1) \<Rightarrow> Some (Inr (), HashIndex t1 p1))
      | BTreeIndex b \<Rightarrow>
          (case env_bt_Insert env b key val of
             (False, b1) \<Rightarrow> Some (Inl BTreeError, BTreeIndex b1)
           | (True, b1) \<Rightarrow> Some (Inr (), BTreeIndex b1)))"

definition index_Update ::
  "'b Env \<Rightarrow> 'b Index \<Rightarrow> int \<Rightarrow> int \<Rightarrow> (index_error + unit) \<times> 'b Index" where
  "index_Update env idx key val =
     (case idx of
        HashIndex t p \<Rightarrow>
          (case hash_Update (env_hasher env) t p key val (env_read_ok env) of
             (Inl e, p1) \<Rightarrow> (Inl (HashError e), HashIndex t p1)
           | (Inr u, p1) \<Rightarrow> (Inr (), HashIndex t p1))
      | BTreeIndex b \<Rightarrow>
          (case env_bt_Update env b key val of
             (False, b1) \<Rightarrow> (Inl BTreeError, BTreeIndex b1)
           | (True, b1) \<Rightarrow> (Inr (), BTreeIndex b1)))"

definition index_Delete ::
  "'b Env \<Rightarrow> 'b Index \<Rightarrow> int \<Rightarrow> (index_error + unit) \<times> 'b Index" where
  "index_Delete env idx key =
     (case idx of
        HashIndex t p \<Rightarrow>
          (case hash_Delete (env_hasher env) t p key (env_read_ok env) of
             (Inl e, p1) \<Rightarrow> (Inl (HashError e), HashIndex t p1)
           | (Inr u, p1) \<Rightarrow> (Inr (), HashIndex t p1))
      | BTreeIndex b \<Rightarrow>
          (case env_bt_Delete env b key of
             (False, b1) \<Rightarrow> (Inl BTreeError, BTreeIndex b1)
           | (True, b1) \<Rightarrow> (Inr (), BTreeIndex b1)))"

text \<open>
  \<open>Database\<close>: the map of open tables, and for the files under the base path the index
  that opening the file gives (\<open>None\<close>: there is no such file).
\<close>

record 'b Database =
  tables :: "string \<rightharpoonup> 'b Index"
  on_disk :: "string \<rightharpoonup> 'b Index"

datatype db_error =
  UsageError | NumberError | TableNotFound | KeyAlreadyInTable | IndexFailed index_error
  | NameNotAlphanumeric | TableAlreadyExists | OpenFailed | CanOnlyRedoEditOrTable

definition set_table :: "'b Database \<Rightarrow> string \<Rightarrow> 'b Index \<Rightarrow> 'b Database" where
  "set_table db name idx = db\<lparr>tables := (tables db)(name \<mapsto> idx)\<rparr>"

definition CreateTable ::
  "'b Env \<Rightarrow> 'b Database \<Rightarrow> string \<Rightarrow> IndexType \<Rightarrow> (db_error + 'b Index) \<times> 'b Database" where
  "CreateTable env db name indexType =
     (if list_ex (\<lambda>c. \<not> isWord c) name then (Inl NameNotAlphanumeric, db)
      else if on_disk db name \<noteq> None then (Inl TableAlreadyExists, db)
      else case (case indexType of
                   BTreeIndexType \<Rightarrow> map_option BTreeIndex (env_OpenIndex env)
                 | HashIndexType \<Rightarrow>
                     (case NewHashTable (New zero_page 0 Map.empty) of
                        (Inl e, p) \<Rightarrow> None
                      | (Inr t, p) \<Rightarrow> Some (HashIndex t p))) of
             None \<Rightarrow> (Inl OpenFailed, db)
           | Some idx \<Rightarrow>
               (Inr idx, db\<lparr>tables := (tables db)(name \<mapsto> idx),
                            on_disk := (on_disk db)(name \<mapsto> idx)\<rparr>))"

definition GetTable ::
  "'b Database \<Rightarrow> string \<Rightarrow> (db_error + 'b Index) \<times> 'b Database" where
  "GetTable db name =
     (case tables db name of
        Some idx \<Rightarrow> (Inr idx, db)
      | None \<Rightarrow>
          (case on_disk db name of
             None \<Rightarrow> (Inl TableNotFound, db)
           | Some idx \<Rightarrow> (Inr idx, set_table db name idx)))"

definition HandleCreateTable ::
  "'b Env \<Rightarrow> 'b Database \<Rightarrow> string \<Rightarrow> (db_error + unit) \<times> 'b Database" where
  "HandleCreateTable env db payload =
     (let fields = Fields payload
      in if length fields \<noteq> 4 \<or> fields ! 2 \<noteq> ''table''
            \<or> (fields ! 1 \<noteq> ''btree'' \<and> fields ! 1 \<noteq> ''hash'')
         then (Inl UsageError, db)
         else (case CreateTable env db (fields ! 3)
                     (if fields ! 1 = ''btree'' then BTreeIndexType else HashIndexType) of
                 (Inl e, db1) \<Rightarrow> (Inl e, db1)
               | (Inr idx, db1) \<Rightarrow> (Inr (), db1)))"

definition HandleInsert ::
  "'b Env \<Rightarrow> 'b Database \<Rightarrow> string \<Rightarrow> ((db_error + unit) \<times> 'b Database) option" where
  "HandleInsert env db payload =
     (let fields = Fields payload
      in if length fields \<noteq> 5 \<or> fields ! 3 \<noteq> ''into'' then Some (Inl UsageError, db)
         else if \<not> snd (Atoi (fields ! 1)) then Some (Inl NumberError, db)
         else if \<not> snd (Atoi (fields ! 2)) then Some (Inl NumberError, db)
         else (let key = fst (Atoi (fields ! 1)); val = fst (Atoi (fields ! 2));
                   tableName = fields ! 4
               in case GetTable db tableName of
                    (Inl e, db1) \<Rightarrow> Some (Inl e, db1)
                  | (Inr table, db1) \<Rightarrow>
                      (case index_Find env table key of
                         (Inr en, table1) \<Rightarrow>
                           Some (Inl KeyAlreadyInTable, set_table db1 tableName table1)
                       | (Inl e, table1) \<Rightarrow>
                           (case index_Insert env table1 key val of
                              None \<Rightarrow> None
                            | Some (Inl e2, table2) \<Rightarrow>
                                Some (Inl (IndexFailed e2), set_table db1 tableName table2)
                            | Some (Inr u, table2) \<Rightarrow>
                                Some (Inr (), set_table db1 tableName table2)))))"

definition HandleUpdate ::
  "'b Env \<Rightarrow> 'b Database \<Rightarrow> string \<Rightarrow> (db_error + unit) \<times> 'b Database" where
  "HandleUpdate env db payload =
     (let fields = Fields payload
      in if length fields \<noteq> 4 then (Inl UsageError, db)
         else if \<not> snd (Atoi (fields ! 2)) then (Inl NumberError, db)
         else if \<not> snd (Atoi (fields ! 3)) then (Inl NumberError, db)
         else (let key = fst (Atoi (fields ! 2)); val = fst (Atoi (fields ! 3));
                   tableName = fields ! 1
               in case GetTable db tableName of
                    (Inl e, db1) \<Rightarrow> (Inl e, db1)
                  | (Inr table, db1) \<Rightarrow>
                      (case index_Update env table key val of
                         (Inl e, table1) \<Rightarrow>
                           (Inl (IndexFailed e), set_table db1 tableName table1)
                       | (Inr u, table1) \<Rightarrow> (Inr (), set_table db1 tableName table1))))"

definition HandleDelete ::
  "'b Env \<Rightarrow> 'b Database \<Rightarrow> string \<Rightarrow> (db_error + unit) \<times> 'b Database" where
  "HandleDelete env db payload =
     (let fields = Fields payload
      in if length fields \<noteq> 4 \<or> fields ! 2 \<noteq> ''from'' then (Inl UsageError, db)
         else if \<not> snd (Atoi (fields ! 1)) then (Inl NumberError, db)
         else (let key = fst (Atoi (fields ! 1)); tableName = fields ! 3
               in case GetTable db tableName of
                    (Inl e, db1) \<Rightarrow> (Inl e, db1)
                  | (Inr table, db1) \<Rightarrow>
                      (case index_Delete env table key of
                         (Inl e, table1) \<Rightarrow>
                           (Inl (IndexFailed e), set_table db1 tableName table1)
                       | (Inr u, table1) \<Rightarrow> (Inr (), set_table db1 tableName table1))))"


section \<open>Log records and the redo of one record (pkg/recovery)\<close>

text \<open>A \<open>uuid.UUID\<close> is an array of 16 bytes.\<close>

type_synonym UUID = "8 word list"

text \<open>The \<open>action\<close> of an edit is a string, one of the three constants.\<close>

type_synonym action = string

definition INSERT_ACTION :: action where
  "INSERT_ACTION = ''INSERT''"

definition UPDATE_ACTION :: action where
  "UPDATE_ACTION = ''UPDATE''"

definition DELETE_ACTION :: action where
  "DELETE_ACTION = ''DELETE''"

datatype log =
  tableLog string string
  | editLog UUID string action int int int
  | startLog UUID
  | commitLog UUID
  | checkpointLog "UUID list"

text \<open>
  \<open>redo\<close>: the action of a table or edit record, through the command handlers, with the
  payload printed and parsed as in the source.
\<close>

definition redo ::
  "'b Env \<Rightarrow> 'b Database \<Rightarrow> log \<Rightarrow> ((db_error + unit) \<times> 'b Database) option" where
  "redo env db lg =
     (case lg of
        tableLog tblType tblName \<Rightarrow>
          Some (HandleCreateTable env db (''create '' @ tblType @ '' table '' @ tblName))
      | editLog tid tablename act key oldval newval \<Rightarrow>
          (let insert_payload =
                 ''insert '' @ FormatInt key @ '' '' @ FormatInt newval @ '' into '' @ tablename;
               update_payload =
                 ''update '' @ tablename @ '' '' @ FormatInt key @ '' '' @ FormatInt newval;
               delete_payload = ''delete '' @ FormatInt key @ '' from '' @ tablename
           in if act = INSERT_ACTION
              then (case HandleInsert env db insert_payload of
                      None \<Rightarrow> None
                    | Some (Inr u, db1) \<Rightarrow> Some (Inr (), db1)
                    | Some (Inl e, db1) \<Rightarrow> Some (HandleUpdate env db1 update_payload))
              else if act = UPDATE_ACTION
              then (case HandleUpdate env db update_payload of
                      (Inr u, db1) \<Rightarrow> Some (Inr (), db1)
                    | (Inl e, db1) \<Rightarrow> HandleInsert env db1 insert_payload)
              else if act = DELETE_ACTION
              then Some (HandleDelete env db delete_payload)
              else Some (Inr (), db))
      | startLog tid \<Rightarrow> Some (Inl CanOnlyRedoEditOrTable, db)
      | commitLog tid \<Rightarrow> Some (Inl CanOnlyRedoEditOrTable, db)
      | checkpointLog ids \<Rightarrow> Some (Inl CanOnlyRedoEditOrTable, db))"

text \<open>The pager of the hash table that \<open>NewHashTable\<close> makes on a new, empty pager.\<close>

definition new_table_pager :: "BucketPage Pager" where
  "new_table_pager = snd (NewHashTable (New zero_page 0 Map.empty))"

text \<open>
  A database whose one table \<open>t\<close> is the hash table that \<open>create hash table t\<close> makes in
  an empty database.
\<close>

definition example_db :: "'b Env \<Rightarrow> 'b Database" where
  "example_db env =
     snd (HandleCreateTable env \<lparr>tables = Map.empty, on_disk = Map.empty\<rparr>
            ''create hash table t'')"


section \<open>Regular expressions (regexp)\<close>

text \<open>
  The regular expressions of the log parser: the empty expression, a character class,
  a literal string, sequence, alternative (the left one preferred), greedy star and a
  numbered capturing group.
\<close>

datatype regex =
  Eps | Class "char list" | Lit string | Seq regex regex | Alt regex regex | Star regex
  | Group nat regex

definition Plus :: "regex \<Rightarrow> regex" where
  "Plus r = Seq r (Star r)"

definition Opt :: "regex \<Rightarrow> regex" where
  "Opt r = Alt r Eps"

definition seqs :: "regex list \<Rightarrow> regex" where
  "seqs rs = foldr Seq rs Eps"

definition Rep :: "nat \<Rightarrow> regex \<Rightarrow> regex" where
  "Rep n r = seqs (replicate n r)"

fun strip_prefix :: "string \<Rightarrow> string \<Rightarrow> string option" where
  "strip_prefix [] s = Some s"
| "strip_prefix (c # cs) [] = None"
| "strip_prefix (c # cs) (x # xs) = (if c = x then strip_prefix cs xs else None)"

text \<open>
  \<open>rmatch r s c\<close>: the ways \<open>r\<close> matches a prefix of \<open>s\<close>, in the order of preference of a
  backtracking search, each as the rest of \<open>s\<close> after the match and the captures \<open>c\<close>
  extended by the groups of the match. An iteration of a star that matches the empty
  string is not repeated.
\<close>

type_synonym captures = "nat \<Rightarrow> string"

fun rmatch :: "regex \<Rightarrow> string \<Rightarrow> captures \<Rightarrow> (string \<times> captures) list" where
  "rmatch Eps s c = [(s, c)]"
| "rmatch (Class cs) s c =
     (case s of [] \<Rightarrow> [] | x # xs \<Rightarrow> if x \<in> set cs then [(xs, c)] else [])"
| "rmatch (Lit l) s c = (case strip_prefix l s of None \<Rightarrow> [] | Some rest \<Rightarrow> [(rest, c)])"
| "rmatch (Seq a b) s c = concat (map (\<lambda>(s1, c1). rmatch b s1 c1) (rmatch a s c))"
| "rmatch (Alt a b) s c = rmatch a s c @ rmatch b s c"
| "rmatch (Star a) s c =
     concat (map (\<lambda>(s1, c1). if length s1 < length s then rmatch (Star a) s1 c1 else [])
               (rmatch a s c)) @ [(s, c)]"
| "rmatch (Group n a) s c =
     map (\<lambda>(s1, c1). (s1, c1(n := take (length s - length s1) s))) (rmatch a s c)"

text \<open>
  The leftmost match of \<open>r\<close> in \<open>s\<close>, the preferred one at its position: the matched
  text, the captures and the rest of \<open>s\<close> after the match.
\<close>

fun search :: "regex \<Rightarrow> string \<Rightarrow> (string \<times> captures \<times> string) option" where
  "search r [] =
     (case rmatch r [] (\<lambda>n. []) of [] \<Rightarrow> None | (rest, c) # ms \<Rightarrow> Some ([], c, rest))"
| "search r (x # xs) =
     (case rmatch r (x # xs) (\<lambda>n. []) of
        [] \<Rightarrow> search r xs
      | (rest, c) # ms \<Rightarrow> Some (take (length (x # xs) - length rest) (x # xs), c, rest))"

definition MatchString :: "regex \<Rightarrow> string \<Rightarrow> bool" where
  "MatchString r s = (search r s \<noteq> None)"

text \<open>\<open>FindStringSubmatch\<close>: the captures of the leftmost match.\<close>

definition FindStringSubmatch :: "regex \<Rightarrow> string \<Rightarrow> captures" where
  "FindStringSubmatch r s = (case search r s of None \<Rightarrow> (\<lambda>n. []) | Some (m, c, rest) \<Rightarrow> c)"

text \<open>\<open>FindString\<close>: the text of the leftmost match, the empty string without a match.\<close>

definition FindString :: "regex \<Rightarrow> string \<Rightarrow> string" where
  "FindString r s = (case search r s of None \<Rightarrow> [] | Some (m, c, rest) \<Rightarrow> m)"

text \<open>
  \<open>FindAllString(s, -1)\<close>: the successive matches, each searched for in the rest after
  the one before (for an expression that does not match the empty string).
\<close>

function FindAllString :: "regex \<Rightarrow> string \<Rightarrow> string list" where
  "FindAllString r s =
     (case search r s of
        None \<Rightarrow> []
      | Some (m, c, rest) \<Rightarrow>
          if length rest < length s then m # FindAllString r rest else [m])"
  by pat_completeness auto
termination
  by (relation "measure (\<lambda>(r, s). length s)") auto

declare FindAllString.simps [simp del]


section \<open>Log records as text (pkg/recovery)\<close>

text \<open>
  \<open>UUID.String\<close>: the bytes in lower-case hexadecimal, in groups of 4, 2, 2, 2 and 6
  bytes separated by hyphens.
\<close>

definition hex_digit :: "nat \<Rightarrow> char" where
  "hex_digit d = ''0123456789abcdef'' ! d"

definition hex_byte :: "8 word \<Rightarrow> string" where
  "hex_byte b = [hex_digit (unat b div 16), hex_digit (unat b mod 16)]"

definition hex_bytes :: "8 word list \<Rightarrow> string" where
  "hex_bytes bs = concat (map hex_byte bs)"

definition uuid_String :: "UUID \<Rightarrow> string" where
  "uuid_String u =
     hex_bytes (take 4 u) @ ''-'' @ hex_bytes (take 2 (drop 4 u)) @ ''-''
     @ hex_bytes (take 2 (drop 6 u)) @ ''-'' @ hex_bytes (take 2 (drop 8 u)) @ ''-''
     @ hex_bytes (take 6 (drop 10 u))"

text \<open>
  \<open>uuid.Parse\<close> on the form of 36 characters, the only one the pattern below lets
  through: hyphens at positions 8, 13, 18 and 23, and pairs of hexadecimal digits of
  either case for the 16 bytes. \<open>None\<close> is the error, on which \<open>MustParse\<close> panics.
\<close>

definition hex_val :: "char \<Rightarrow> nat option" where
  "hex_val c =
     (if c \<in> set ''0123456789'' then Some (of_char c - 48)
      else if c \<in> set ''abcdef'' then Some (of_char c - 87)
      else if c \<in> set ''ABCDEF'' then Some (of_char c - 55)
      else None)"

definition parse_byte :: "string \<Rightarrow> nat \<Rightarrow> 8 word option" where
  "parse_byte s i =
     (case (hex_val (s ! i), hex_val (s ! (i + 1))) of
        (Some h, Some l) \<Rightarrow> Some (word_of_nat (16 * h + l))
      | (x, y) \<Rightarrow> None)"

definition uuid_Parse :: "string \<Rightarrow> UUID option" where
  "uuid_Parse s =
     (if length s \<noteq> 36 \<or> s ! 8 \<noteq> CHR ''-'' \<or> s ! 13 \<noteq> CHR ''-'' \<or> s ! 18 \<noteq> CHR ''-''
         \<or> s ! 23 \<noteq> CHR ''-''
      then None
      else (let bs = map (parse_byte s) [0, 2, 4, 6, 9, 11, 14, 16, 19, 21, 24, 26, 28, 30, 32, 34]
            in if list_all (\<lambda>b. b \<noteq> None) bs then Some (map the bs) else None))"

text \<open>\<open>toString\<close> of the five kinds of record; every line ends with a line feed.\<close>

fun checkpoint_ids :: "string list \<Rightarrow> string" where
  "checkpoint_ids [] = []"
| "checkpoint_ids [x] = x"
| "checkpoint_ids (x # y # ys) = x @ '', '' @ checkpoint_ids (y # ys)"

fun toString :: "log \<Rightarrow> string" where
  "toString (tableLog tblType tblName) =
     ''< create '' @ tblType @ '' table '' @ tblName @ '' >'' @ [CHR 0x0A]"
| "toString (editLog tid tablename act key oldval newval) =
     ''< '' @ uuid_String tid @ '', '' @ tablename @ '', '' @ act @ '', '' @ FormatInt key
     @ '', '' @ FormatInt oldval @ '', '' @ FormatInt newval @ '' >'' @ [CHR 0x0A]"
| "toString (startLog tid) = ''< '' @ uuid_String tid @ '' start >'' @ [CHR 0x0A]"
| "toString (commitLog tid) = ''< '' @ uuid_String tid @ '' commit >'' @ [CHR 0x0A]"
| "toString (checkpointLog ids) =
     (if ids = [] then ''< checkpoint >'' @ [CHR 0x0A]
      else ''< '' @ checkpoint_ids (map uuid_String ids) @ '' checkpoint >'' @ [CHR 0x0A])"

text \<open>The patterns of the parser. \<open>\\w\<close>, \<open>\\d\<close> and \<open>\\s\<close> are the ASCII classes.\<close>

definition word_class :: regex where
  "word_class = Class ''0123456789ABCDEFGHIJKLMNOPQRSTUVWXYZ_abcdefghijklmnopqrstuvwxyz''"

definition digit_class :: regex where
  "digit_class = Class ''0123456789''"

definition space_class :: regex where
  "space_class = Class [CHR 0x09, CHR 0x0A, CHR 0x0C, CHR 0x0D, CHR '' '']"

definition hex_class :: regex where
  "hex_class = Class ''0123456789abcdef''"

definition uuidPattern :: regex where
  "uuidPattern =
     seqs [Rep 8 hex_class, Lit ''-'', Rep 4 hex_class, Lit ''-'', Rep 4 hex_class, Lit ''-'',
           Rep 4 hex_class, Lit ''-'', Rep 12 hex_class]"

definition tableExp :: regex where
  "tableExp =
     seqs [Lit ''< create '', Group 1 (Plus word_class), Lit '' table '',
           Group 2 (Plus word_class), Lit '' >'']"

definition editExp :: regex where
  "editExp =
     seqs [Lit ''< '', Group 1 uuidPattern, Lit '', '', Group 2 (Plus word_class), Lit '', '',
           Group 3 (Alt (Lit ''UPDATE'') (Alt (Lit ''INSERT'') (Lit ''DELETE''))), Lit '', '',
           Group 4 (Plus digit_class), Lit '', '', Group 5 (Plus digit_class), Lit '', '',
           Group 6 (Plus digit_class), Lit '' >'']"

definition startExp :: regex where
  "startExp = seqs [Lit ''< '', Group 1 uuidPattern, Lit '' start >'']"

definition commitExp :: regex where
  "commitExp = seqs [Lit ''< '', Group 1 uuidPattern, Lit '' commit >'']"

definition checkpointExp :: regex where
  "checkpointExp =
     seqs [Lit ''< '', Star (Group 1 (seqs [uuidPattern, Opt (Lit '',''), space_class])),
           Lit ''checkpoint >'']"

definition uuidExp :: regex where
  "uuidExp = uuidPattern"

datatype log_error = CouldNotParseLog | InvalidUUID

text \<open>
  \<open>logFromString\<close>: the first of the five patterns that matches somewhere in the line
  decides the kind of record; the errors of \<open>Atoi\<close> are dropped.
\<close>

definition parse_uuids :: "string list \<Rightarrow> UUID list option" where
  "parse_uuids ss =
     (if list_all (\<lambda>s. uuid_Parse s \<noteq> None) ss then Some (map (\<lambda>s. the (uuid_Parse s)) ss)
      else None)"

definition logFromString :: "string \<Rightarrow> log_error + log" where
  "logFromString s =
     (if MatchString tableExp s
      then (let expStrs = FindStringSubmatch tableExp s
            in Inr (tableLog (expStrs 1) (expStrs 2)))
      else if MatchString editExp s
      then (let expStrs = FindStringSubmatch editExp s
            in case uuid_Parse (expStrs 1) of
                 None \<Rightarrow> Inl InvalidUUID
               | Some u \<Rightarrow>
                   Inr (editLog u (expStrs 2) (expStrs 3) (fst (Atoi (expStrs 4)))
                          (fst (Atoi (expStrs 5))) (fst (Atoi (expStrs 6)))))
      else if MatchString startExp s
      then (case uuid_Parse (FindString uuidExp s) of
              None \<Rightarrow> Inl InvalidUUID
            | Some u \<Rightarrow> Inr (startLog u))
      else if MatchString commitExp s
      then (case uuid_Parse (FindString uuidExp s) of
              None \<Rightarrow> Inl InvalidUUID
            | Some u \<Rightarrow> Inr (commitLog u))
      else if MatchString checkpointExp s
      then (case parse_uuids (FindAllString uuidExp s) of
              None \<Rightarrow> Inl InvalidUUID
            | Some us \<Rightarrow> Inr (checkpointLog us))
      else Inl CouldNotParseLog)"

text \<open>The nil UUID, 16 zero bytes.\<close>

definition nil_uuid :: UUID where
  "nil_uuid = replicate 16 0"


section \<open>Properties of the waits-for graph\<close>

lemma dfs_sound:
  "dfs g from seen \<Longrightarrow> \<forall>s\<in>seen. (s, from) \<in> (set g)\<^sup>* \<Longrightarrow> has_cycle g"
proof (induction g "from" seen rule: dfs.induct)
  case (1 g "from" seen)
  from "1.prems"(1) obtain e where f: "find (\<lambda>e. fst e = from) g = Some e"
    by (cases "find (\<lambda>e. fst e = from) g") (auto simp: dfs.simps [of g "from" seen])
  then have e: "(from, snd e) \<in> set g"
    by (auto simp: find_Some_iff)
  show ?case
  proof (cases "snd e \<in> seen")
    case True
    with "1.prems"(2) have "(snd e, from) \<in> (set g)\<^sup>*"
      by blast
    with e have "(snd e, snd e) \<in> (set g)\<^sup>+"
      by (meson rtrancl_into_trancl1)
    then show ?thesis
      unfolding has_cycle_def by blast
  next
    case False
    with f "1.prems"(1) have d: "dfs g (snd e) (insert (snd e) seen)"
      by (simp add: dfs.simps [of g "from" seen])
    have "\<forall>s\<in>insert (snd e) seen. (s, snd e) \<in> (set g)\<^sup>*"
      using "1.prems"(2) e by (auto intro: rtrancl_into_rtrancl)
    with "1.IH" [OF f False d] show ?thesis
      by blast
  qed
qed

text \<open>
  C2. Whatever sequence of \<open>AddEdge\<close> and \<open>RemoveEdge\<close> calls built the edge slice, a
  \<open>True\<close> answer of \<open>DetectCycle\<close> means that the edges contain a directed cycle: the
  detector reports no deadlock where there is none.
\<close>

theorem DetectCycle_no_false_positive:
  "DetectCycle (graph_after calls) \<Longrightarrow> has_cycle (graph_after calls)"
proof -
  assume d: "DetectCycle (graph_after calls)"
  then have "dfs (graph_after calls) (fst (graph_after calls ! 0)) {}"
    by (simp add: DetectCycle_def split: if_splits)
  then show "has_cycle (graph_after calls)"
    by (rule dfs_sound) simp
qed

theorem DetectCycle_no_false_positive_witness:
  "DetectCycle (graph_after [CallAddEdge (1::nat) 2, CallAddEdge 2 1])
   \<and> has_cycle (graph_after [CallAddEdge (1::nat) 2, CallAddEdge 2 1])"
proof -
  have d: "DetectCycle (graph_after [CallAddEdge (1::nat) 2, CallAddEdge 2 1])"
    by (simp add: DetectCycle_def graph_after_def NewGraph_def AddEdge_def dfs.simps)
  with DetectCycle_no_false_positive [OF d] show ?thesis
    by simp
qed

section \<open>Properties of the transaction manager\<close>

lemmas tm_defs = tm_after_def Lock_def Begin_def NewTransactionManager_def Let_def
  NewGraph_def DetectCycle_def remove_edges_def rlm_Lock_def new_RWMutex_def mutex_RLock_def
  mutex_RUnlock_def mutex_Lock_def mutex_Unlock_def set_tx_def AddEdge_def RemoveEdge_def
  removeHelper_def dfs.simps


lemma waiting_manager_eq:
  "waiting_manager lType =
     \<lparr>resourceLockManager =
        [(''t'', 1) \<mapsto> \<lparr>readers = 0, writer = True, waiting = 0\<rparr>,
         (''t'', 2) \<mapsto> \<lparr>readers = 0, writer = True, waiting = 1\<rparr>,
         (''t'', 3) \<mapsto> (case lType of R_LOCK \<Rightarrow> \<lparr>readers = 1, writer = False, waiting = 0\<rparr>
                                     | W_LOCK \<Rightarrow> \<lparr>readers = 0, writer = True, waiting = 0\<rparr>)],
      waitsForGraph = [(1, 2)],
      transactions =
        [1 \<mapsto> \<lparr>clientId = 1, lockedResources = [(''t'', 1) \<mapsto> W_LOCK], mtx = new_RWMutex\<rparr>,
         2 \<mapsto> \<lparr>clientId = 2, lockedResources = [(''t'', 2) \<mapsto> W_LOCK], mtx = new_RWMutex\<rparr>,
         3 \<mapsto> \<lparr>clientId = 3, lockedResources = [(''t'', 3) \<mapsto> lType], mtx = new_RWMutex\<rparr>]\<rparr>"
  by (cases lType) (simp_all add: waiting_manager_def waiting_calls_def tm_defs fun_upd_twist)

lemma stuck_manager_eq:
  "stuck_manager lType =
     \<lparr>resourceLockManager =
        [(''t'', 1) \<mapsto> \<lparr>readers = 0, writer = True, waiting = 0\<rparr>,
         (''t'', 2) \<mapsto> \<lparr>readers = 0, writer = True, waiting = 1\<rparr>,
         (''t'', 3) \<mapsto> (case lType of R_LOCK \<Rightarrow> \<lparr>readers = 1, writer = False, waiting = 0\<rparr>
                                     | W_LOCK \<Rightarrow> \<lparr>readers = 0, writer = True, waiting = 0\<rparr>),
         (''t'', 4) \<mapsto> \<lparr>readers = 0, writer = True, waiting = 0\<rparr>],
      waitsForGraph = [(1, 2)],
      transactions =
        [1 \<mapsto> \<lparr>clientId = 1, lockedResources = [(''t'', 1) \<mapsto> W_LOCK], mtx = new_RWMutex\<rparr>,
         2 \<mapsto> \<lparr>clientId = 2, lockedResources = [(''t'', 2) \<mapsto> W_LOCK],
                mtx = \<lparr>readers = 1, writer = False, waiting = 1\<rparr>\<rparr>,
         3 \<mapsto> \<lparr>clientId = 3, lockedResources = [(''t'', 3) \<mapsto> lType], mtx = new_RWMutex\<rparr>]\<rparr>"
  by (cases lType)
     (simp_all add: stuck_manager_def waiting_calls_def tm_defs fun_upd_twist)

lemma conflictingTransactions_granted:
  assumes "\<And>c t. transactions tm c = Some t \<Longrightarrow> \<not> writer (mtx t) \<and> waiting (mtx t) = 0"
  shows "conflictingTransactions tm order r lType \<noteq> None"
proof (induction order)
  case Nil
  show ?case by simp
next
  case (Cons c cs)
  then obtain txs where "conflictingTransactions tm cs r lType = Some txs"
    by auto
  then show ?case
    using assms [of c] by (auto simp: mutex_RLock_def split: option.split)
qed

lemma set_tx_same: "transactions tm cid = Some t \<Longrightarrow> set_tx tm cid t = tm"
  by (simp add: set_tx_def fun_upd_idem)

lemma RUnlock_RLock: "mutex_RLock m = Some m1 \<Longrightarrow> mutex_RUnlock m1 = m"
  by (auto simp: mutex_RLock_def mutex_RUnlock_def split: if_splits)

text \<open>
  With the mutexes of the transactions free of writers, a request for a resource that
  the transaction holds returns at once and leaves the manager as it is.
\<close>

lemma Lock_held_granted:
  assumes tx: "transactions tm cid = Some t"
    and held: "lockedResources t (table, k) = Some cur"
    and free: "\<And>c t'. transactions tm c = Some t' \<Longrightarrow> \<not> writer (mtx t') \<and> waiting (mtx t') = 0"
  shows "Lock tm order cid table k lType
    = (if cur = R_LOCK \<and> lType = W_LOCK then Err CannotUpgradeLock else Ok, tm)"
proof -
  have "conflictingTransactions tm order (table, k) lType \<noteq> None"
    by (rule conflictingTransactions_granted) (rule free)
  then obtain txs where c: "conflictingTransactions tm order (table, k) lType = Some txs"
    by blast
  from free [OF tx] obtain m1 where r: "mutex_RLock (mtx t) = Some m1"
    by (auto simp: mutex_RLock_def)
  have "set_tx tm cid (t\<lparr>mtx := mutex_RUnlock m1\<rparr>) = tm"
    using RUnlock_RLock [OF r] set_tx_same [OF tx] by simp
  then show ?thesis
    by (simp add: Lock_def tx c r held)
qed

lemma conflictingTransactions_waits:
  assumes "c \<in> set order" and "transactions tm c = Some t" and "mutex_RLock (mtx t) = None"
  shows "conflictingTransactions tm order r lType = None"
  using assms by (induction order) (auto split: option.split)

lemma tm_holding_eq:
  "tm_holding lType =
     \<lparr>resourceLockManager =
        [(''t'', 5) \<mapsto> (case lType of R_LOCK \<Rightarrow> \<lparr>readers = 1, writer = False, waiting = 0\<rparr>
                                     | W_LOCK \<Rightarrow> \<lparr>readers = 0, writer = True, waiting = 0\<rparr>)],
      waitsForGraph = [],
      transactions =
        [1 \<mapsto> \<lparr>clientId = 1, lockedResources = [(''t'', 5) \<mapsto> lType], mtx = new_RWMutex\<rparr>]\<rparr>"
  by (cases lType) (simp_all add: tm_holding_def tm_defs)


text \<open>
  C8. A request for a resource that the transaction holds does not return in every
  state. Clients 1 and 2 hold write locks on \<open>(t, 1)\<close> and \<open>(t, 2)\<close> and client 3 a read
  lock on \<open>(t, 3)\<close>; client 1 waits for \<open>(t, 2)\<close>; client 2 asks for \<open>(t, 1)\<close>, is refused
  as a deadlock (that return leaves its transaction read-locked), and asks for
  \<open>(t, 4)\<close>, which waits for the write lock of its transaction. From then on, in
  whatever order the transactions are visited, the request of client 3 for \<open>(t, 3)\<close>,
  as a read or as a write lock, waits for the read lock of the transaction of client 2
  and the manager stays as it is: neither success nor the cannot-upgrade error is
  returned.
\<close>

theorem Lock_held_waits_after_deadlock:
  "lockedResources (the (transactions (stuck_manager R_LOCK) 3)) (''t'', 3) = Some R_LOCK
   \<and> map (\<lambda>order. Lock (stuck_manager R_LOCK) order 3 ''t'' 3 R_LOCK)
         [[1, 2, 3], [1, 3, 2], [2, 1, 3], [2, 3, 1], [3, 1, 2], [3, 2, 1]]
       = replicate 6 (Blocked, stuck_manager R_LOCK)
   \<and> map (\<lambda>order. Lock (stuck_manager R_LOCK) order 3 ''t'' 3 W_LOCK)
         [[1, 2, 3], [1, 3, 2], [2, 1, 3], [2, 3, 1], [3, 1, 2], [3, 2, 1]]
       = replicate 6 (Blocked, stuck_manager R_LOCK)"
proof -
  let ?t2 = "\<lparr>clientId = 2::nat, lockedResources = [(''t'', 2::int) \<mapsto> W_LOCK],
              mtx = \<lparr>readers = 1, writer = False, waiting = 1\<rparr>\<rparr>"
  have t2: "transactions (stuck_manager R_LOCK) 2 = Some ?t2"
    by (simp add: stuck_manager_eq)
  have w: "mutex_RLock (mtx ?t2) = None"
    by (simp add: mutex_RLock_def)
  have c: "conflictingTransactions (stuck_manager R_LOCK) order r lType = None"
    if "2 \<in> set order" for order r lType
    using that t2 w by (rule conflictingTransactions_waits)
  have t3: "transactions (stuck_manager R_LOCK) 3
      = Some \<lparr>clientId = 3, lockedResources = [(''t'', 3) \<mapsto> R_LOCK], mtx = new_RWMutex\<rparr>"
    by (simp add: stuck_manager_eq)
  have l: "Lock (stuck_manager R_LOCK) order 3 ''t'' 3 lType = (Blocked, stuck_manager R_LOCK)"
    if "2 \<in> set order" for order lType
    by (simp add: Lock_def t3 c [OF that])
  have r: "replicate 6 v = [v, v, v, v, v, v]" for v :: "tm_result \<times> nat TransactionManager"
    by (simp add: eval_nat_numeral)
  show ?thesis
    unfolding r by (simp add: l t3)
qed

text \<open>
  A request of a read lock on a held write lock returns success and leaves the edge of
  a client that waits in the waits-for graph.
\<close>

theorem Lock_read_on_held_write_edge_remains:
  "lockedResources (the (transactions (waiting_manager W_LOCK) 3)) (''t'', 3) = Some W_LOCK
   \<and> fst (Lock (waiting_manager W_LOCK) [1, 2, 3] 3 ''t'' 3 R_LOCK) = Ok
   \<and> waitsForGraph (snd (Lock (waiting_manager W_LOCK) [1, 2, 3] 3 ''t'' 3 R_LOCK)) = [(1, 2)]"
  by (simp add: waiting_manager_eq Lock_def new_RWMutex_def mutex_RLock_def mutex_RUnlock_def
        set_tx_def Let_def)

text \<open>
  C10. A transaction that holds a write lock on a resource and asks for a read lock on
  it, in a manager where no transaction's mutex is write-locked or waited for by a
  writer, gets success at once (the call does not wait); the manager is unchanged, so
  the transaction's held set still records the resource with the write lock, and the
  waits-for graph is the one before the call: the call adds no edge, and the edges of
  the calls that wait stay.
\<close>

theorem Lock_read_on_held_write:
  assumes "transactions tm cid = Some t"
    and "lockedResources t (table, k) = Some W_LOCK"
    and "\<forall>c t'. transactions tm c = Some t' \<longrightarrow> \<not> writer (mtx t') \<and> waiting (mtx t') = 0"
  shows "Lock tm order cid table k R_LOCK = (Ok, tm)
    \<and> transactions (snd (Lock tm order cid table k R_LOCK)) cid = Some t
    \<and> lockedResources t (table, k) = Some W_LOCK
    \<and> waitsForGraph (snd (Lock tm order cid table k R_LOCK)) = waitsForGraph tm"
proof -
  have "Lock tm order cid table k R_LOCK = (Ok, tm)"
    using Lock_held_granted [OF assms(1, 2), of order R_LOCK] assms(3) by simp
  with assms show ?thesis
    by simp
qed

theorem Lock_read_on_held_write_witness:
  "lockedResources (the (transactions (tm_holding W_LOCK) 1)) (''t'', 5) = Some W_LOCK
   \<and> Lock (tm_holding W_LOCK) [1] 1 ''t'' 5 R_LOCK = (Ok, tm_holding W_LOCK)
   \<and> waitsForGraph (snd (Lock (tm_holding W_LOCK) [1] 1 ''t'' 5 R_LOCK)) = []"
proof -
  let ?t = "\<lparr>clientId = 1::nat, lockedResources = [(''t'', 5::int) \<mapsto> W_LOCK], mtx = new_RWMutex\<rparr>"
  have a: "transactions (tm_holding W_LOCK) 1 = Some ?t"
    by (simp add: tm_holding_eq)
  have b: "lockedResources ?t (''t'', 5) = Some W_LOCK"
    by simp
  have c: "\<forall>c t'. transactions (tm_holding W_LOCK) c = Some t' \<longrightarrow>
             \<not> writer (mtx t') \<and> waiting (mtx t') = 0"
    by (auto simp: tm_holding_eq new_RWMutex_def split: if_splits)
  have d: "waitsForGraph (tm_holding W_LOCK) = []"
    by (simp add: tm_holding_eq)
  from Lock_read_on_held_write [OF a b c, of "[1]"] a d show ?thesis
    by simp
qed

section \<open>Properties of the pager\<close>

lemma frames_okI:
  assumes "distinct (free @ unp @ pin)" and "set (free @ unp @ pin) = F"
    and "\<And>pn g. pt pn = Some g \<Longrightarrow> g \<in> set pin \<or> g \<in> set unp"
    and "\<And>pn g. pt pn = Some g \<Longrightarrow> pnf g = pn"
    and "\<And>pn g. pt pn = Some g \<Longrightarrow> pn < n"
    and "\<And>g. g \<in> set pin \<or> g \<in> set unp \<Longrightarrow> pt (pnf g) = Some g"
  shows "frames_ok F free unp pin pt pnf n"
  unfolding frames_ok_def using assms by simp

lemma frames_okD:
  assumes "frames_ok F free unp pin pt pnf n"
  shows "distinct (free @ unp @ pin)" and "set (free @ unp @ pin) = F"
    and "\<And>pn g. pt pn = Some g \<Longrightarrow> g \<in> set pin \<or> g \<in> set unp"
    and "\<And>pn g. pt pn = Some g \<Longrightarrow> pnf g = pn"
    and "\<And>pn g. pt pn = Some g \<Longrightarrow> pn < n"
    and "\<And>g. g \<in> set pin \<or> g \<in> set unp \<Longrightarrow> pt (pnf g) = Some g"
  using assms unfolding frames_ok_def by auto

lemma frames_ok_cong:
  assumes ok: "frames_ok F free unp pin pt pnf n" and eq: "\<And>g. g \<in> F \<Longrightarrow> pnf' g = pnf g"
  shows "frames_ok F free unp pin pt pnf' n"
proof (rule frames_okI)
  note d = frames_okD [OF ok]
  show "distinct (free @ unp @ pin)" by (rule d(1))
  show "set (free @ unp @ pin) = F" by (rule d(2))
  have b: "g \<in> F" if "g \<in> set pin \<or> g \<in> set unp" for g
    using that d(2) by auto
  fix pn g assume t: "pt pn = Some g"
  show "g \<in> set pin \<or> g \<in> set unp" by (rule d(3) [OF t])
  show "pnf' g = pn" using d(4) [OF t] eq [OF b [OF d(3) [OF t]]] by simp
  show "pn < n" by (rule d(5) [OF t])
next
  note d = frames_okD [OF ok]
  fix g assume g: "g \<in> set pin \<or> g \<in> set unp"
  then have "g \<in> F" using d(2) by auto
  with eq have "pnf' g = pnf g" by simp
  with d(6) [OF g] show "pt (pnf' g) = Some g" by simp
qed

lemma take_free:
  assumes ok: "frames_ok F (f # rest) unp pin pt pnf n"
  shows "frames_ok (F - {f}) rest unp pin pt pnf n"
proof (rule frames_okI)
  note d = frames_okD [OF ok]
  show "distinct (rest @ unp @ pin)" using d(1) by simp
  show "set (rest @ unp @ pin) = F - {f}" using d(1) d(2) by auto
  fix pn g assume t: "pt pn = Some g"
  show "g \<in> set pin \<or> g \<in> set unp" by (rule d(3) [OF t])
  show "pnf g = pn" by (rule d(4) [OF t])
  show "pn < n" by (rule d(5) [OF t])
next
  fix g assume g: "g \<in> set pin \<or> g \<in> set unp"
  show "pt (pnf g) = Some g" by (rule frames_okD(6) [OF ok g])
qed

lemma take_unpinned:
  assumes ok: "frames_ok F free (f # rest) pin pt pnf n"
  shows "frames_ok (F - {f}) free rest pin (pt(pnf f := None)) pnf n"
proof (rule frames_okI)
  note d = frames_okD [OF ok]
  show "distinct (free @ rest @ pin)" using d(1) by simp
  show "set (free @ rest @ pin) = F - {f}" using d(1) d(2) by auto
  fix pn g assume t': "(pt(pnf f := None)) pn = Some g"
  then have t: "pt pn = Some g" and ne: "pn \<noteq> pnf f" by (auto split: if_splits)
  from d(4) [OF t] ne have "g \<noteq> f" by auto
  with d(3) [OF t] show "g \<in> set pin \<or> g \<in> set rest" by auto
  show "pnf g = pn" by (rule d(4) [OF t])
  show "pn < n" by (rule d(5) [OF t])
next
  note d = frames_okD [OF ok]
  fix g assume g: "g \<in> set pin \<or> g \<in> set rest"
  then have g': "g \<in> set pin \<or> g \<in> set (f # rest)" by auto
  from g d(1) have "g \<noteq> f" by auto
  have "pt (pnf f) = Some f" by (rule d(6)) simp
  with d(6) [OF g'] \<open>g \<noteq> f\<close> have "pnf g \<noteq> pnf f" by auto
  with d(6) [OF g'] show "(pt(pnf f := None)) (pnf g) = Some g" by simp
qed

lemma install_pinned:
  assumes ok: "frames_ok (F - {f}) free unp pin pt pnf n" and f: "f \<in> F"
    and none: "pt pn = None" and pnf: "pnf f = pn" and lt: "pn < n'" and le: "n \<le> n'"
  shows "frames_ok F free unp (pin @ [f]) (pt(pn \<mapsto> f)) pnf n'"
proof (rule frames_okI)
  note d = frames_okD [OF ok]
  have nf: "f \<notin> set (free @ unp @ pin)" using d(2) by auto
  show "distinct (free @ unp @ pin @ [f])" using d(1) nf by auto
  show "set (free @ unp @ pin @ [f]) = F" using d(2) f by auto
  fix pn' g assume t': "(pt(pn \<mapsto> f)) pn' = Some g"
  show "g \<in> set (pin @ [f]) \<or> g \<in> set unp"
    using t' d(3) [of pn' g] by (auto split: if_splits)
  show "pnf g = pn'"
    using t' d(4) [of pn' g] pnf by (auto split: if_splits)
  show "pn' < n'"
    using t' d(5) [of pn' g] lt le by (auto split: if_splits)
next
  note d = frames_okD [OF ok]
  fix g assume g: "g \<in> set (pin @ [f]) \<or> g \<in> set unp"
  show "(pt(pn \<mapsto> f)) (pnf g) = Some g"
  proof (cases "g = f")
    case True
    then show ?thesis using pnf by simp
  next
    case False
    with g have g': "g \<in> set pin \<or> g \<in> set unp" by auto
    from d(6) [OF g'] none have "pnf g \<noteq> pn" by auto
    with d(6) [OF g'] show ?thesis by simp
  qed
qed

lemma return_free:
  assumes ok: "frames_ok (F - {f}) free unp pin pt pnf n" and f: "f \<in> F"
  shows "frames_ok F (free @ [f]) unp pin pt pnf n"
proof (rule frames_okI)
  note d = frames_okD [OF ok]
  have nf: "f \<notin> set (free @ unp @ pin)" using d(2) by auto
  show "distinct ((free @ [f]) @ unp @ pin)" using d(1) nf by auto
  show "set ((free @ [f]) @ unp @ pin) = F" using d(2) f by auto
  fix pn g assume t: "pt pn = Some g"
  show "g \<in> set pin \<or> g \<in> set unp" by (rule d(3) [OF t])
  show "pnf g = pn" by (rule d(4) [OF t])
  show "pn < n" by (rule d(5) [OF t])
next
  fix g assume g: "g \<in> set pin \<or> g \<in> set unp"
  show "pt (pnf g) = Some g" by (rule frames_okD(6) [OF ok g])
qed

lemma move_to_pinned:
  assumes ok: "frames_ok F free unp pin pt pnf n" and t0: "pt pn = Some f" and u: "f \<in> set unp"
  shows "frames_ok F free (remove1 f unp) (pin @ [f]) (pt(pn \<mapsto> f)) pnf n"
proof (rule frames_okI)
  note d = frames_okD [OF ok]
  have eq: "pt(pn \<mapsto> f) = pt" using t0 by (simp add: fun_upd_idem)
  have du: "distinct unp" and "f \<notin> set pin" and "f \<notin> set free" using d(1) u by auto
  then show "distinct (free @ remove1 f unp @ pin @ [f])" using d(1) by auto
  have "set (remove1 f unp) = set unp - {f}" using du by simp
  then show "set (free @ remove1 f unp @ pin @ [f]) = F" using d(2) u by auto
  fix pn' g assume "(pt(pn \<mapsto> f)) pn' = Some g"
  then have t: "pt pn' = Some g" by (simp add: eq)
  show "g \<in> set (pin @ [f]) \<or> g \<in> set (remove1 f unp)"
    using d(3) [OF t] du by (cases "g = f") auto
  show "pnf g = pn'" by (rule d(4) [OF t])
  show "pn' < n" by (rule d(5) [OF t])
next
  note d = frames_okD [OF ok]
  have eq: "pt(pn \<mapsto> f) = pt" using t0 by (simp add: fun_upd_idem)
  fix g assume g: "g \<in> set (pin @ [f]) \<or> g \<in> set (remove1 f unp)"
  then have "g \<in> set pin \<or> g \<in> set unp"
    using u set_remove1_subset [of f unp] by auto
  from d(6) [OF this] show "(pt(pn \<mapsto> f)) (pnf g) = Some g" by (simp add: eq)
qed

lemma move_to_unpinned:
  assumes ok: "frames_ok F free unp pin pt pnf n" and b: "f \<in> set pin \<or> f \<in> set unp"
  shows "frames_ok F free (remove1 f unp @ [f]) (remove1 f pin) (pt(pnf f \<mapsto> f)) pnf n"
proof (rule frames_okI)
  note d = frames_okD [OF ok]
  have eq: "pt(pnf f \<mapsto> f) = pt" using d(6) [OF b] by (simp add: fun_upd_idem)
  have du: "distinct unp" "distinct pin" "f \<notin> set free" "set unp \<inter> set pin = {}"
    using d(1) b by auto
  then show "distinct (free @ (remove1 f unp @ [f]) @ remove1 f pin)" using d(1) by auto
  have "set (remove1 f unp) = set unp - {f}" "set (remove1 f pin) = set pin - {f}"
    using du by simp_all
  then show "set (free @ (remove1 f unp @ [f]) @ remove1 f pin) = F" using d(2) b by auto
  fix pn' g assume "(pt(pnf f \<mapsto> f)) pn' = Some g"
  then have t: "pt pn' = Some g" by (simp add: eq)
  show "g \<in> set (remove1 f pin) \<or> g \<in> set (remove1 f unp @ [f])"
    using d(3) [OF t] du by (cases "g = f") auto
  show "pnf g = pn'" by (rule d(4) [OF t])
  show "pn' < n" by (rule d(5) [OF t])
next
  note d = frames_okD [OF ok]
  have eq: "pt(pnf f \<mapsto> f) = pt" using d(6) [OF b] by (simp add: fun_upd_idem)
  fix g assume g: "g \<in> set (remove1 f pin) \<or> g \<in> set (remove1 f unp @ [f])"
  then have "g \<in> set pin \<or> g \<in> set unp"
    using b set_remove1_subset [of f unp] set_remove1_subset [of f pin] by auto
  from d(6) [OF this] show "(pt(pnf f \<mapsto> f)) (pnf g) = Some g" by (simp add: eq)
qed

lemma update_page_fields [simp]:
  "numPages (update_page p f upd) = numPages p"
  "freeList (update_page p f upd) = freeList p"
  "unpinnedList (update_page p f upd) = unpinnedList p"
  "pinnedList (update_page p f upd) = pinnedList p"
  "pageTable (update_page p f upd) = pageTable p"
  "disk (update_page p f upd) = disk p"
  "pages (update_page p f upd) g = (if g = f then upd (pages p f) else pages p g)"
  by (simp_all add: update_page_def)

lemma FlushPage_fields [simp]:
  "numPages (FlushPage p f) = numPages p"
  "freeList (FlushPage p f) = freeList p"
  "unpinnedList (FlushPage p f) = unpinnedList p"
  "pinnedList (FlushPage p f) = pinnedList p"
  "pageTable (FlushPage p f) = pageTable p"
  "pagenum (pages (FlushPage p f) g) = pagenum (pages p g)"
  "pinCount (pages (FlushPage p f) g) = pinCount (pages p g)"
  "data (pages (FlushPage p f) g) = data (pages p g)"
  by (simp_all add: FlushPage_def)

lemma pager_ok_on_FlushPage: "pager_ok_on F (FlushPage p f) = pager_ok_on F p"
  by (simp add: pager_ok_on_def)

lemma pager_ok_on_foldl_FlushPage: "pager_ok_on F (foldl FlushPage p fs) = pager_ok_on F p"
  by (induction fs arbitrary: p) (simp_all add: pager_ok_on_FlushPage)

lemma pager_ok_FlushAllPages: "pager_ok (FlushAllPages p) = pager_ok p"
  by (simp add: FlushAllPages_def pager_ok_def pager_ok_on_foldl_FlushPage)

lemma pager_ok_onI:
  assumes "frames_ok F fr un pi pt pnf n"
    and "freeList p = fr" and "unpinnedList p = un" and "pinnedList p = pi"
    and "pageTable p = pt" and "numPages p = n"
    and "\<And>g. g \<in> F \<Longrightarrow> pagenum (pages p g) = pnf g"
  shows "pager_ok_on F p"
  unfolding pager_ok_on_def using assms(2-6) frames_ok_cong [OF assms(1), of "\<lambda>g. pagenum (pages p g)"] assms(7)
  by simp

lemma newPage_Inr:
  assumes ok: "pager_ok_on F p" and np: "newPage p pn = Inr (f, p1)"
  shows "pager_ok_on (F - {f}) p1" and "f \<in> F" and "pagenum (pages p1 f) = pn"
    and "numPages p1 = numPages p" and "pinCount (pages p1 f) = 1"
    and "pageTable p pn = None \<Longrightarrow> pageTable p1 pn = None"
proof -
  let ?set = "\<lambda>pg::'a Page. pg\<lparr>pagenum := pn, dirty := False, pinCount := 1\<rparr>"
  have "pager_ok_on (F - {f}) p1 \<and> f \<in> F \<and> pagenum (pages p1 f) = pn
      \<and> numPages p1 = numPages p \<and> pinCount (pages p1 f) = 1
      \<and> (pageTable p pn = None \<longrightarrow> pageTable p1 pn = None)"
  proof (cases "freeList p")
    case (Cons f' rest)
    with np have f: "f' = f" and p1: "p1 = update_page (p\<lparr>freeList := rest\<rparr>) f ?set"
      by (auto simp: newPage_def)
    from ok Cons f have a: "frames_ok F (f # rest) (unpinnedList p) (pinnedList p) (pageTable p)
        (\<lambda>g. pagenum (pages p g)) (numPages p)"
      by (simp add: pager_ok_on_def)
    from frames_okD(2) [OF a] have "f \<in> F" by auto
    moreover have "pager_ok_on (F - {f}) p1"
      by (rule pager_ok_onI [OF take_free [OF a]]) (simp_all add: p1)
    ultimately show ?thesis by (simp add: p1)
  next
    case Nil
    show ?thesis
    proof (cases "unpinnedList p")
      case Nil' : Nil
      with Nil np show ?thesis by (simp add: newPage_def)
    next
      case (Cons f' rest)
      let ?q = "FlushPage (p\<lparr>unpinnedList := rest\<rparr>) f"
      from Nil Cons np have f: "f' = f"
        and p1: "p1 = update_page (?q\<lparr>pageTable := (pageTable ?q)(pagenum (pages ?q f) := None)\<rparr>) f ?set"
        by (auto simp: newPage_def Let_def)
      from ok Nil Cons f have a: "frames_ok F [] (f # rest) (pinnedList p) (pageTable p)
          (\<lambda>g. pagenum (pages p g)) (numPages p)"
        by (simp add: pager_ok_on_def)
      from frames_okD(2) [OF a] have "f \<in> F" by auto
      moreover have "pager_ok_on (F - {f}) p1"
        by (rule pager_ok_onI [OF take_unpinned [OF a]]) (simp_all add: p1 Nil)
      ultimately show ?thesis by (simp add: p1)
    qed
  qed
  then show "pager_ok_on (F - {f}) p1" and "f \<in> F" and "pagenum (pages p1 f) = pn"
    and "numPages p1 = numPages p" and "pinCount (pages p1 f) = 1"
    and "pageTable p pn = None \<Longrightarrow> pageTable p1 pn = None"
    by simp_all
qed

lemma pager_ok_GetNewPage:
  assumes ok: "pager_ok p"
  shows "pager_ok (snd (GetNewPage p))"
proof (cases "newPage p (numPages p)")
  case (Inl e)
  with ok show ?thesis by (simp add: GetNewPage_def)
next
  case (Inr r)
  obtain f p1 where r: "r = (f, p1)" by (cases r)
  from ok have ok': "pager_ok_on {0..<MaxPagesInBuffer} p" by (simp add: pager_ok_def)
  note n = newPage_Inr [OF ok' Inr [unfolded r]]
  have none: "pageTable p (numPages p) = None"
  proof (cases "pageTable p (numPages p)")
    case (Some g)
    from frames_okD(5) [OF ok' [unfolded pager_ok_on_def] Some] show ?thesis by simp
  qed simp
  have a: "frames_ok {0..<MaxPagesInBuffer} (freeList p1) (unpinnedList p1) (pinnedList p1 @ [f])
      ((pageTable p1)(numPages p \<mapsto> f)) (\<lambda>g. pagenum (pages p1 g)) (numPages p + 1)"
    by (rule install_pinned [OF n(1) [unfolded pager_ok_on_def] n(2) n(6) [OF none] n(3)])
       (simp_all add: n(4))
  have "pager_ok_on {0..<MaxPagesInBuffer} (snd (GetNewPage p))"
    by (rule pager_ok_onI [OF a]) (simp_all add: GetNewPage_def Inr r Let_def n(4))
  then show ?thesis by (simp add: pager_ok_def)
qed

lemma pager_ok_GetPage:
  assumes ok: "pager_ok p"
  shows "pager_ok (snd (GetPage p pn read_ok))"
proof (cases "pn < 0 \<or> pn > numPages p - 1")
  case True
  with ok show ?thesis by (simp add: GetPage_def)
next
  case range: False
  from ok have ok': "pager_ok_on {0..<MaxPagesInBuffer} p" by (simp add: pager_ok_def)
  show ?thesis
  proof (cases "pageTable p pn")
    case (Some f)
    show ?thesis
    proof (cases "f \<in> set (unpinnedList p)")
      case True
      have "pager_ok_on {0..<MaxPagesInBuffer} (snd (GetPage p pn read_ok))"
        by (rule pager_ok_onI [OF move_to_pinned [OF ok' [unfolded pager_ok_on_def] Some True]])
           (simp_all add: GetPage_def range Some True Let_def)
      then show ?thesis by (simp add: pager_ok_def)
    next
      case False
      have "pager_ok_on {0..<MaxPagesInBuffer} (snd (GetPage p pn read_ok))"
        by (rule pager_ok_onI [OF ok' [unfolded pager_ok_on_def]])
           (simp_all add: GetPage_def range Some False Let_def)
      then show ?thesis by (simp add: pager_ok_def)
    qed
  next
    case None
    show ?thesis
    proof (cases "newPage p pn")
      case (Inl e)
      with ok show ?thesis by (simp add: GetPage_def range None)
    next
      case (Inr r)
      obtain f p1 where r: "r = (f, p1)" by (cases r)
      note n = newPage_Inr [OF ok' Inr [unfolded r]]
      show ?thesis
      proof (cases read_ok)
        case False
        have "pager_ok_on {0..<MaxPagesInBuffer} (snd (GetPage p pn read_ok))"
          by (rule pager_ok_onI [OF return_free [OF n(1) [unfolded pager_ok_on_def] n(2)]])
             (simp_all add: GetPage_def range None Inr r False Let_def)
        then show ?thesis by (simp add: pager_ok_def)
      next
        case True
        have a: "frames_ok {0..<MaxPagesInBuffer} (freeList p1) (unpinnedList p1) (pinnedList p1 @ [f])
            ((pageTable p1)(pn \<mapsto> f)) (\<lambda>g. pagenum (pages p1 g)) (numPages p)"
          by (rule install_pinned [OF n(1) [unfolded pager_ok_on_def] n(2) n(6) [OF None] n(3)])
             (use range in \<open>simp_all add: n(4)\<close>)
        have "pager_ok_on {0..<MaxPagesInBuffer} (snd (GetPage p pn read_ok))"
          by (rule pager_ok_onI [OF a])
             (simp_all add: GetPage_def range None Inr r True Let_def fillPageFromDisk_def n(4)
                split: option.split)
        then show ?thesis by (simp add: pager_ok_def)
      qed
    qed
  qed
qed

lemma pager_ok_PutPage:
  assumes ok: "pager_ok p" and b: "f \<in> set (pinnedList p) \<or> f \<in> set (unpinnedList p)"
  shows "pager_ok (snd (PutPage p f))"
proof -
  from ok have ok': "pager_ok_on {0..<MaxPagesInBuffer} p" by (simp add: pager_ok_def)
  note d = frames_okD [OF ok' [unfolded pager_ok_on_def]]
  have t: "pageTable p (pagenum (pages p f)) = Some f" by (rule d(6) [OF b])
  have "pager_ok_on {0..<MaxPagesInBuffer} (snd (PutPage p f))"
  proof (cases "pinCount (pages p f) = 1")
    case True
    have l: "remove1 f (unpinnedList p) = unpinnedList p" if "f \<in> set (pinnedList p)"
    proof -
      from that d(1) have "f \<notin> set (unpinnedList p)" by auto
      then show ?thesis by (rule remove1_idem)
    qed
    have r: "remove1 f (pinnedList p) = pinnedList p" if "f \<notin> set (pinnedList p)"
      using that by (simp add: remove1_idem)
    show ?thesis
      by (rule pager_ok_onI [OF move_to_unpinned [OF ok' [unfolded pager_ok_on_def] b]])
         (use b in \<open>auto simp: PutPage_def Let_def True t PopSelf_def l r\<close>)
  next
    case False
    show ?thesis
      by (rule pager_ok_onI [OF ok' [unfolded pager_ok_on_def]])
         (simp_all add: PutPage_def Let_def False)
  qed
  then show ?thesis by (simp add: pager_ok_def)
qed

lemma pager_ok_FlushPage: "pager_ok (FlushPage p f) = pager_ok p"
  by (simp add: pager_ok_def pager_ok_on_FlushPage)

lemma pager_ok_step:
  "pager_ok p \<Longrightarrow> admissible p c \<Longrightarrow> pager_ok (pager_step p c)"
  by (cases c)
     (simp_all add: pager_ok_GetNewPage pager_ok_GetPage pager_ok_PutPage pager_ok_FlushAllPages
        pager_ok_FlushPage)

lemma pager_ok_run:
  "pager_run p cs = Some p' \<Longrightarrow> pager_ok p \<Longrightarrow> pager_ok p'"
  by (induction cs arbitrary: p) (auto simp: pager_ok_step split: if_splits)

lemma pager_ok_New: "pager_ok (New zero n file)"
  unfolding pager_ok_def pager_ok_on_def
  by (rule frames_okI) (simp_all add: New_def)

lemmas pager_defs = New_def MaxPagesInBuffer_def upt_rec GetNewPage_def newPage_def Let_def
  update_page_def PutPage_def PopSelf_def GetPage_def FlushPage_def FlushAllPages_def
  fillPageFromDisk_def NoPage_def

lemma pinned_pager_0: "pinned_pager zero 0 = New zero 0 Map.empty"
  by (simp add: pinned_pager_def New_def) (auto simp: fun_eq_iff)

lemma pinned_pager_Suc:
  assumes "k < MaxPagesInBuffer"
  shows "snd (GetNewPage (pinned_pager zero k)) = pinned_pager zero (Suc k)"
proof -
  have u: "[k..<MaxPagesInBuffer] = k # [Suc k..<MaxPagesInBuffer]"
    using assms by (rule upt_conv_Cons)
  show ?thesis
    by (simp add: pinned_pager_def GetNewPage_def newPage_def u update_page_def Let_def)
      (auto simp: fun_eq_iff)
qed

lemma pinned_pager_reached:
  "k \<le> MaxPagesInBuffer \<Longrightarrow>
     ((\<lambda>p. snd (GetNewPage p)) ^^ k) (New zero 0 Map.empty) = pinned_pager zero k"
  by (induction k) (simp_all add: pinned_pager_0 pinned_pager_Suc)


text \<open>
  C3. In every pager state: with the free list and the unpinned list both empty,
  \<open>GetNewPage\<close> fails with the out-of-pages error and leaves the pager as it is; in
  every other state it returns a page whose number is the \<open>numPages\<close> of before the call,
  with pin count 1 and the dirty flag set, appended to the pinned list and entered in
  the page table under that number, and \<open>numPages\<close> has gone up by one.
\<close>

theorem GetNewPage_result:
  "(freeList p = [] \<and> unpinnedList p = [] \<longrightarrow> GetNewPage p = (Inl ErrRanOutOfPages, p))
   \<and> (\<not> (freeList p = [] \<and> unpinnedList p = []) \<longrightarrow>
        (\<exists>f. fst (GetNewPage p) = Inr f
           \<and> pagenum (pages (snd (GetNewPage p)) f) = numPages p
           \<and> numPages (snd (GetNewPage p)) = numPages p + 1
           \<and> pinCount (pages (snd (GetNewPage p)) f) = 1
           \<and> dirty (pages (snd (GetNewPage p)) f)
           \<and> pinnedList (snd (GetNewPage p)) = pinnedList p @ [f]
           \<and> pageTable (snd (GetNewPage p)) (numPages p) = Some f))"
proof (cases "freeList p")
  case (Cons f rest)
  then show ?thesis
    by (simp add: GetNewPage_def newPage_def Let_def)
next
  case Nil
  show ?thesis
  proof (cases "unpinnedList p")
    case Nil' : Nil
    with Nil show ?thesis
      by (simp add: GetNewPage_def newPage_def)
  next
    case (Cons f rest)
    with Nil show ?thesis
      by (simp add: GetNewPage_def newPage_def Let_def)
  qed
qed

theorem GetNewPage_result_witness:
  "freeList (pinned_pager (0::nat) MaxPagesInBuffer) = []
   \<and> unpinnedList (pinned_pager (0::nat) MaxPagesInBuffer) = []
   \<and> GetNewPage (pinned_pager (0::nat) MaxPagesInBuffer)
       = (Inl ErrRanOutOfPages, pinned_pager 0 MaxPagesInBuffer)
   \<and> freeList (New (0::nat) 0 Map.empty) \<noteq> []
   \<and> (\<exists>f. fst (GetNewPage (New (0::nat) 0 Map.empty)) = Inr f
        \<and> pagenum (pages (snd (GetNewPage (New (0::nat) 0 Map.empty))) f) = 0
        \<and> numPages (snd (GetNewPage (New (0::nat) 0 Map.empty))) = 1
        \<and> pinCount (pages (snd (GetNewPage (New (0::nat) 0 Map.empty))) f) = 1
        \<and> dirty (pages (snd (GetNewPage (New (0::nat) 0 Map.empty))) f)
        \<and> pinnedList (snd (GetNewPage (New (0::nat) 0 Map.empty))) = [f]
        \<and> pageTable (snd (GetNewPage (New (0::nat) 0 Map.empty))) 0 = Some f)"
proof -
  have e: "freeList (pinned_pager (0::nat) MaxPagesInBuffer) = []"
    "unpinnedList (pinned_pager (0::nat) MaxPagesInBuffer) = []"
    by (simp_all add: pinned_pager_def)
  have h: "freeList (New (0::nat) 0 Map.empty) \<noteq> []" "numPages (New (0::nat) 0 Map.empty) = 0"
    "pinnedList (New (0::nat) 0 Map.empty) = []"
    by (simp_all add: New_def MaxPagesInBuffer_def)
  from GetNewPage_result [of "pinned_pager (0::nat) MaxPagesInBuffer"]
    GetNewPage_result [of "New (0::nat) 0 Map.empty"] e h
  show ?thesis
    by simp
qed


text \<open>
  C4. After any sequence of \<open>GetNewPage\<close>, \<open>GetPage\<close>, \<open>PutPage\<close>, \<open>FlushPage\<close> and
  \<open>FlushAllPages\<close> calls on a new pager (\<open>PutPage\<close> on pages held in the buffer), each of the \<open>MaxPagesInBuffer\<close> frames is in exactly one of the free, unpinned
  and pinned lists, the three lengths add up to \<open>MaxPagesInBuffer\<close>, and every page-table
  entry points to a frame in the pinned or the unpinned list.
\<close>

theorem pager_lists_invariant:
  assumes "pager_run (New zero n file) calls = Some p"
  shows "frames_in_one_list p
    \<and> length (pinnedList p) + length (unpinnedList p) + length (freeList p) = MaxPagesInBuffer
    \<and> table_targets_buffered p"
proof -
  have "pager_ok p" by (rule pager_ok_run [OF assms pager_ok_New])
  then have ok: "frames_ok {0..<MaxPagesInBuffer} (freeList p) (unpinnedList p) (pinnedList p)
      (pageTable p) (\<lambda>g. pagenum (pages p g)) (numPages p)"
    by (simp add: pager_ok_def pager_ok_on_def)
  note d = frames_okD [OF ok]
  have one: "frames_in_one_list p"
    using d(1) d(2) by (simp add: frames_in_one_list_def)
  have "length (freeList p @ unpinnedList p @ pinnedList p) = card {0..<MaxPagesInBuffer}"
    using d(1) d(2) distinct_card by metis
  then have len: "length (pinnedList p) + length (unpinnedList p) + length (freeList p)
      = MaxPagesInBuffer"
    by simp
  have "table_targets_buffered p"
    unfolding table_targets_buffered_def using d(3) by blast
  with one len show ?thesis by simp
qed

theorem pager_lists_invariant_witness:
  "pager_run (New (0::nat) 0 Map.empty) pager_example_calls \<noteq> None
   \<and> frames_in_one_list (the (pager_run (New (0::nat) 0 Map.empty) pager_example_calls))
   \<and> length (pinnedList (the (pager_run (New (0::nat) 0 Map.empty) pager_example_calls)))
       + length (unpinnedList (the (pager_run (New (0::nat) 0 Map.empty) pager_example_calls)))
       + length (freeList (the (pager_run (New (0::nat) 0 Map.empty) pager_example_calls)))
       = MaxPagesInBuffer
   \<and> table_targets_buffered (the (pager_run (New (0::nat) 0 Map.empty) pager_example_calls))"
proof -
  have "pager_run (New (0::nat) 0 Map.empty) pager_example_calls \<noteq> None"
    by (simp add: pager_example_calls_def pager_defs)
  then obtain p where p: "pager_run (New (0::nat) 0 Map.empty) pager_example_calls = Some p"
    by blast
  from pager_lists_invariant [OF p] p show ?thesis
    by simp
qed


section \<open>Properties of the hash table\<close>

lemma numPages_PutPage [simp]: "numPages (snd (PutPage p f)) = numPages p"
  by (simp add: PutPage_def Let_def PopSelf_def split: option.split)

lemma GetNewPage_Inr:
  assumes "GetNewPage p = (Inr f, p1)"
  shows "pagenum (pages p1 f) = numPages p" and "numPages p1 = numPages p + 1"
  using assms
  by (auto simp: GetNewPage_def newPage_def Let_def split: list.splits sum.splits prod.splits)

lemma newHashBucket_Inr:
  assumes "newHashBucket p d = (Inr b, p1)"
  shows "pagenum (pages p1 (page b)) = numPages p" and "numPages p1 = numPages p + 1"
    and "localDepth b = d" and "numKeys b = 0"
    and "pg_localDepth (data (pages p1 (page b))) = d"
proof -
  from assms obtain f q where g: "GetNewPage p = (Inr f, q)"
    and b: "b = \<lparr>localDepth = d, numKeys = 0, page = f\<rparr>"
    and p1: "p1 = page_Update q f (\<lambda>x. x\<lparr>pg_localDepth := d\<rparr>)"
    by (auto simp: newHashBucket_def updateLocalDepth_def split: prod.splits sum.splits)
  note n = GetNewPage_Inr [OF g]
  show "pagenum (pages p1 (page b)) = numPages p" and "numPages p1 = numPages p + 1"
    and "localDepth b = d" and "numKeys b = 0"
    and "pg_localDepth (data (pages p1 (page b))) = d"
    using n by (simp_all add: b p1 page_Update_def)
qed

lemma new_buckets_Inr:
  "new_buckets n d p = (Inr pns, p') \<Longrightarrow>
     pns = map (\<lambda>i. numPages p + int i) [0..<n] \<and> numPages p' = numPages p + int n"
proof (induction n arbitrary: p pns)
  case 0
  then show ?case by simp
next
  case (Suc n)
  from Suc.prems obtain b p1 pns' where nb: "newHashBucket p d = (Inr b, p1)"
    and rest: "new_buckets n d (snd (PutPage p1 (page b))) = (Inr pns', p')"
    and pns: "pns = pagenum (pages p1 (page b)) # pns'"
    by (auto simp: Let_def split: prod.splits sum.splits)
  note h = newHashBucket_Inr [OF nb]
  from Suc.IH [OF rest] have ih: "pns' = map (\<lambda>i. numPages p + 1 + int i) [0..<n]"
    "numPages p' = numPages p + 1 + int n"
    by (simp_all add: h(2))
  have "map (\<lambda>i. numPages p + int i) [0..<Suc n]
      = numPages p # map (\<lambda>i. numPages p + 1 + int i) [0..<n]"
    by (simp add: upt_conv_Cons map_Suc_upt [symmetric] del: upt_Suc)
  with ih pns h(1) show ?case by simp
qed

lemma NewHashTable_new_pager:
  "fst (NewHashTable (New zero_page 0 file)) = Inr \<lparr>globalDepth = 2, buckets = [0, 1, 2, 3]\<rparr>"
  "map (bucket_header (snd (NewHashTable (New zero_page 0 file)))) [0, 1, 2, 3]
     = replicate 4 (Some (2, 0))"
  by (simp_all add: NewHashTable_def powInt_def eval_nat_numeral newHashBucket_def
        updateLocalDepth_def page_Update_def pager_defs bucket_header_def pageToBucket_def
        zero_page_def)


text \<open>
  C9. A table returned by \<open>NewHashTable\<close> has global depth 2 and a directory of 4 slots
  holding 4 distinct page numbers, the ones allocated by the call (\<open>numPages\<close> to
  \<open>numPages + 3\<close> of the pager it was given). On the new pager of an empty file, which
  is what \<open>OpenTable\<close> passes, the call succeeds with directory \<open>[0, 1, 2, 3]\<close> and each of
  the four pages holds a bucket of local depth 2 with no keys.
\<close>

theorem NewHashTable_result:
  "(NewHashTable p = (Inr t, p') \<longrightarrow>
      globalDepth t = 2 \<and> length (buckets t) = 4 \<and> distinct (buckets t)
      \<and> buckets t = [numPages p, numPages p + 1, numPages p + 2, numPages p + 3]
      \<and> numPages p' = numPages p + 4)
   \<and> fst (NewHashTable (New zero_page 0 file)) = Inr \<lparr>globalDepth = 2, buckets = [0, 1, 2, 3]\<rparr>
   \<and> map (bucket_header (snd (NewHashTable (New zero_page 0 file)))) [0, 1, 2, 3]
       = replicate 4 (Some (2, 0))"
proof -
  have "globalDepth t = 2 \<and> length (buckets t) = 4 \<and> distinct (buckets t)
      \<and> buckets t = [numPages p, numPages p + 1, numPages p + 2, numPages p + 3]
      \<and> numPages p' = numPages p + 4" if n: "NewHashTable p = (Inr t, p')"
  proof -
    from n obtain pns where nb: "new_buckets 4 2 p = (Inr pns, p')"
      and t: "t = \<lparr>globalDepth = 2, buckets = pns\<rparr>"
      by (auto simp: NewHashTable_def powInt_def split: prod.splits sum.splits)
    from new_buckets_Inr [OF nb]
    have "pns = [numPages p, numPages p + 1, numPages p + 2, numPages p + 3]"
      and "numPages p' = numPages p + 4"
      by (simp_all add: upt_rec)
    with t show ?thesis by simp
  qed
  with NewHashTable_new_pager show ?thesis by blast
qed

theorem NewHashTable_result_witness:
  "NewHashTable (New zero_page 0 Map.empty)
     = (Inr \<lparr>globalDepth = 2, buckets = [0, 1, 2, 3]\<rparr>, snd (NewHashTable (New zero_page 0 Map.empty)))
   \<and> numPages (snd (NewHashTable (New zero_page 0 Map.empty))) = 4
   \<and> map (bucket_header (snd (NewHashTable (New zero_page 0 Map.empty)))) [0, 1, 2, 3]
       = replicate 4 (Some (2, 0))"
proof -
  have e: "NewHashTable (New zero_page 0 Map.empty)
     = (Inr \<lparr>globalDepth = 2, buckets = [0, 1, 2, 3]\<rparr>, snd (NewHashTable (New zero_page 0 Map.empty)))"
    using NewHashTable_new_pager(1) [of Map.empty] by (simp add: prod_eq_iff)
  have n: "numPages (New zero_page 0 Map.empty) = 0"
    by (simp add: New_def)
  from NewHashTable_result [of "New zero_page 0 Map.empty"
      "\<lparr>globalDepth = 2, buckets = [0, 1, 2, 3]\<rparr>" "snd (NewHashTable (New zero_page 0 Map.empty))"
      Map.empty] e n
  show ?thesis
    by simp
qed


lemma go_rem_nonneg: "0 \<le> a \<Longrightarrow> 0 < b \<Longrightarrow> go_rem a b = a mod b"
  by (cases "a = 0") (simp_all add: go_rem_def)

lemma page_Update_fields [simp]:
  "numPages (page_Update p f upd) = numPages p"
  "freeList (page_Update p f upd) = freeList p"
  "unpinnedList (page_Update p f upd) = unpinnedList p"
  "pinnedList (page_Update p f upd) = pinnedList p"
  "pageTable (page_Update p f upd) = pageTable p"
  "disk (page_Update p f upd) = disk p"
  "pagenum (pages (page_Update p f upd) g) = pagenum (pages p g)"
  "pinCount (pages (page_Update p f upd) g) = pinCount (pages p g)"
  "data (pages (page_Update p f upd) g) = (if g = f then upd (data (pages p f)) else data (pages p g))"
  by (simp_all add: page_Update_def)

lemma modifyEntry_fields [simp]:
  "numPages (modifyEntry p f i e) = numPages p"
  "freeList (modifyEntry p f i e) = freeList p"
  "unpinnedList (modifyEntry p f i e) = unpinnedList p"
  "pinnedList (modifyEntry p f i e) = pinnedList p"
  "pageTable (modifyEntry p f i e) = pageTable p"
  "disk (modifyEntry p f i e) = disk p"
  "pagenum (pages (modifyEntry p f i e) g) = pagenum (pages p g)"
  "pinCount (pages (modifyEntry p f i e) g) = pinCount (pages p g)"
  "pg_localDepth (data (pages (modifyEntry p f i e) g)) = pg_localDepth (data (pages p g))"
  "pg_numKeys (data (pages (modifyEntry p f i e) g)) = pg_numKeys (data (pages p g))"
  by (simp_all add: modifyEntry_def)

lemma bucket_entries_modifyEntry_other:
  "g \<noteq> f \<Longrightarrow> bucket_entries (modifyEntry p f i e) g n = bucket_entries p g n"
  by (simp add: bucket_entries_def getEntry_def modifyEntry_def)

lemma bucket_entries_modifyEntry_next:
  "0 \<le> n \<Longrightarrow> bucket_entries (modifyEntry p f n e) f (n + 1) = bucket_entries p f n @ [e]"
  by (simp add: bucket_entries_def getEntry_def modifyEntry_def nat_add_distrib)

lemma redistribute_fields:
  "numPages (fst (redistribute h dep nh old new es st)) = numPages (fst st)
   \<and> freeList (fst (redistribute h dep nh old new es st)) = freeList (fst st)
   \<and> unpinnedList (fst (redistribute h dep nh old new es st)) = unpinnedList (fst st)
   \<and> pinnedList (fst (redistribute h dep nh old new es st)) = pinnedList (fst st)
   \<and> pageTable (fst (redistribute h dep nh old new es st)) = pageTable (fst st)
   \<and> (\<forall>g. pagenum (pages (fst (redistribute h dep nh old new es st)) g) = pagenum (pages (fst st) g)
        \<and> pg_localDepth (data (pages (fst (redistribute h dep nh old new es st)) g))
            = pg_localDepth (data (pages (fst st) g)))"
proof (induction es arbitrary: st)
  case Nil
  show ?case by simp
next
  case (Cons e es)
  obtain p on nn where st: "st = (p, on, nn)" by (cases st)
  show ?case
    using Cons.IH [of "(modifyEntry p new nn e, on, nn + 1)"]
      Cons.IH [of "(modifyEntry p old on e, on + 1, nn)"]
    by (simp add: st)
qed

lemma redistribute_entries:
  assumes "old \<noteq> new"
  shows "0 \<le> on \<Longrightarrow> 0 \<le> nn \<Longrightarrow>
    redistribute h dep nh old new es (p, on, nn) = (p', on', nn') \<Longrightarrow>
      on' = on + int (length (filter (\<lambda>e. Hasher h (fst e) dep \<noteq> nh) es))
      \<and> nn' = nn + int (length (filter (\<lambda>e. Hasher h (fst e) dep = nh) es))
      \<and> bucket_entries p' old on'
          = bucket_entries p old on @ filter (\<lambda>e. Hasher h (fst e) dep \<noteq> nh) es
      \<and> bucket_entries p' new nn'
          = bucket_entries p new nn @ filter (\<lambda>e. Hasher h (fst e) dep = nh) es"
proof (induction es arbitrary: p on nn)
  case Nil
  then show ?case by simp
next
  case (Cons e es)
  show ?case
  proof (cases "Hasher h (fst e) dep = nh")
    case True
    with Cons.prems(3)
    have r: "redistribute h dep nh old new es (modifyEntry p new nn e, on, nn + 1) = (p', on', nn')"
      by simp
    from Cons.prems(2) have nn1: "0 \<le> nn + 1" by simp
    from Cons.IH [OF Cons.prems(1) nn1 r] True assms Cons.prems(2)
    show ?thesis
      by (auto simp: bucket_entries_modifyEntry_other bucket_entries_modifyEntry_next)
  next
    case False
    with Cons.prems(3)
    have r: "redistribute h dep nh old new es (modifyEntry p old on e, on + 1, nn) = (p', on', nn')"
      by simp
    from Cons.prems(1) have on1: "0 \<le> on + 1" by simp
    from Cons.IH [OF on1 Cons.prems(2) r] False assms Cons.prems(1)
    show ?thesis
      by (auto simp: bucket_entries_modifyEntry_other bucket_entries_modifyEntry_next)
  qed
qed

lemma length_repoint [simp]: "length (repoint bs i bound step v) = length bs"
  by (induction bs i bound step v rule: repoint.induct) (simp add: repoint.simps)

lemma step_multiple:
  fixes i j step :: int
  assumes "0 < step" "j \<noteq> i"
  shows "(i + step \<le> j \<and> (j - (i + step)) mod step = 0) = (i \<le> j \<and> (j - i) mod step = 0)"
proof -
  have "j - i = (j - (i + step)) + step" by simp
  then have m: "(j - (i + step)) mod step = (j - i) mod step"
    by (metis mod_add_self2)
  have "i + step \<le> j" if "i \<le> j" "(j - i) mod step = 0"
  proof -
    from that(2) obtain k where k: "j - i = step * k" by (auto simp: mod_eq_0_iff_dvd)
    with that(1) assms have "0 < step * k" by auto
    with assms(1) have "1 \<le> k" by (simp add: zero_less_mult_iff)
    then have "step * 1 \<le> step * k" using assms(1) by (intro mult_left_mono) auto
    with k show ?thesis by simp
  qed
  with m assms(1) show ?thesis by auto
qed

lemma repoint_nth:
  "0 < step \<Longrightarrow> 0 \<le> i \<Longrightarrow> bound = int (length bs) \<Longrightarrow> j < length bs \<Longrightarrow>
     repoint bs i bound step v ! j
       = (if i \<le> int j \<and> (int j - i) mod step = 0 then v else bs ! j)"
proof (induction bs i bound step v rule: repoint.induct)
  case (1 bs i bound step v)
  show ?case
  proof (cases "i < bound")
    case True
    with "1.prems" have c: "i < bound \<and> 0 < step \<and> 0 \<le> i" by simp
    have ih: "repoint (bs[nat i := v]) (i + step) bound step v ! j
        = (if i + step \<le> int j \<and> (int j - (i + step)) mod step = 0 then v
           else bs[nat i := v] ! j)"
      using "1.IH" [OF c] "1.prems" by simp
    have u: "repoint bs i bound step v = repoint (bs[nat i := v]) (i + step) bound step v"
      using c by (subst repoint.simps) simp
    show ?thesis
    proof (cases "int j = i")
      case True
      then have "nat i = j" by simp
      with True "1.prems" ih u show ?thesis by auto
    next
      case False
      then have "nat i \<noteq> j" using "1.prems"(2) by auto
      with ih u step_multiple [OF "1.prems"(1) False] show ?thesis by simp
    qed
  next
    case False
    with "1.prems" have "\<not> i \<le> int j" by simp
    moreover have "repoint bs i bound step v = bs"
      using False by (subst repoint.simps) simp
    ultimately show ?thesis by simp
  qed
qed

lemma mod_index:
  fixes i j step :: int
  assumes "0 \<le> i" "i < step" "0 \<le> j"
  shows "(i \<le> j \<and> (j - i) mod step = 0) = (j mod step = i)"
proof
  assume a: "i \<le> j \<and> (j - i) mod step = 0"
  then obtain k where "j - i = step * k" by (auto simp: mod_eq_0_iff_dvd)
  then have "j = i + step * k" by simp
  then have "j mod step = i mod step" by simp
  with assms show "j mod step = i" by simp
next
  assume b: "j mod step = i"
  have "j mod step \<le> j" using assms by (intro zmod_le_nonneg_dividend) 
  moreover have "(j - j mod step) mod step = 0" by (simp add: minus_mod_eq_mult_div)
  ultimately show "i \<le> j \<and> (j - i) mod step = 0" using b by simp
qed

lemma repoint_eq:
  assumes "0 \<le> i" "i < step" "bound = int (length bs)"
  shows "repoint bs i bound step v
    = map (\<lambda>j. if int j mod step = i then v else bs ! j) [0..<length bs]"
proof (rule nth_equalityI)
  show "length (repoint bs i bound step v)
      = length (map (\<lambda>j. if int j mod step = i then v else bs ! j) [0..<length bs])"
    by simp
next
  fix j assume "j < length (repoint bs i bound step v)"
  then have j: "j < length bs" by simp
  from assms have s: "0 < step" by simp
  show "repoint bs i bound step v ! j
      = map (\<lambda>j. if int j mod step = i then v else bs ! j) [0..<length bs] ! j"
    using repoint_nth [OF s assms(1) assms(3) j] mod_index [OF assms(1) assms(2), of "int j"] j
    by simp
qed

lemma GetNewPage_succeeds:
  assumes "freeList p \<noteq> [] \<or> unpinnedList p \<noteq> []"
  obtains f q where "GetNewPage p = (Inr f, q)"
    and "f \<in> set (freeList p) \<or> f \<in> set (unpinnedList p)"
    and "pagenum (pages q f) = numPages p" and "numPages q = numPages p + 1"
    and "\<And>g. data (pages q g) = data (pages p g)"
    and "\<And>g. g \<noteq> f \<Longrightarrow> pagenum (pages q g) = pagenum (pages p g)"
proof (cases "freeList p")
  case (Cons f rest)
  show ?thesis
    by (rule that [of f "snd (GetNewPage p)"])
       (simp_all add: Cons GetNewPage_def newPage_def Let_def)
next
  case Nil
  with assms obtain f rest where u: "unpinnedList p = f # rest"
    by (cases "unpinnedList p") auto
  show ?thesis
    by (rule that [of f "snd (GetNewPage p)"])
       (simp_all add: Nil u GetNewPage_def newPage_def Let_def FlushPage_def)
qed

lemma newHashBucket_succeeds:
  assumes "freeList p \<noteq> [] \<or> unpinnedList p \<noteq> []"
  obtains f q where "newHashBucket p dep = (Inr \<lparr>localDepth = dep, numKeys = 0, page = f\<rparr>, q)"
    and "f \<in> set (freeList p) \<or> f \<in> set (unpinnedList p)"
    and "pagenum (pages q f) = numPages p" and "numPages q = numPages p + 1"
    and "\<And>g. g \<noteq> f \<Longrightarrow> data (pages q g) = data (pages p g)"
    and "pg_localDepth (data (pages q f)) = dep"
proof -
  from GetNewPage_succeeds [OF assms] obtain f q0 where g: "GetNewPage p = (Inr f, q0)"
    and m: "f \<in> set (freeList p) \<or> f \<in> set (unpinnedList p)"
    and pn: "pagenum (pages q0 f) = numPages p" and np: "numPages q0 = numPages p + 1"
    and dt: "\<And>g. data (pages q0 g) = data (pages p g)"
    by metis
  show ?thesis
    by (rule that [of f "page_Update q0 f (\<lambda>d. d\<lparr>pg_localDepth := dep\<rparr>)"])
       (simp_all add: newHashBucket_def g updateLocalDepth_def m pn np dt)
qed

lemma bucket_entries_cong:
  "pg_entries (data (pages q f)) = pg_entries (data (pages p f)) \<Longrightarrow>
     bucket_entries q f n = bucket_entries p f n"
  by (simp add: bucket_entries_def getEntry_def)

lemma bucket_entries_0 [simp]: "bucket_entries p f 0 = []"
  by (simp add: bucket_entries_def)

lemma bucket_entries_page_Update:
  "(\<And>d. pg_entries (upd d) = pg_entries d) \<Longrightarrow>
     bucket_entries (page_Update p g upd) f n = bucket_entries p f n"
  by (simp add: bucket_entries_def getEntry_def)

lemma example_full_pager_facts:
  "pageToBucket example_full_pager 0 = \<lparr>localDepth = 2, numKeys = MAX_BUCKET_SIZE, page = 0\<rparr>"
  "freeList example_full_pager \<noteq> []"
  "0 \<notin> set (freeList example_full_pager)"
  "0 \<notin> set (unpinnedList example_full_pager)"
  "numPages example_full_pager = 4"
  by (simp_all add: example_full_pager_def pageToBucket_def NewHashTable_def powInt_def
        eval_nat_numeral newHashBucket_def updateLocalDepth_def page_Update_def pager_defs
        zero_page_def)


text \<open>
  The hash of a key at depth \<open>n\<close> is the absolute value of its 64-bit hash, read as a
  signed number, modulo \<open>2^n\<close>.
\<close>

lemma Hasher_eq_mod:
  assumes "0 \<le> n" and "n \<le> 62"
  shows "Hasher h k n = \<bar>sint (h k)\<bar> mod 2 ^ nat n"
proof -
  have pw: "powInt 2 n = 2 ^ nat n"
    using assms by (simp add: powInt_def)
  have pos: "(0::int) < 2 ^ nat n"
    by simp
  show ?thesis
  proof (cases "sint (h k) < 0")
    case False
    then show ?thesis
      by (simp add: Hasher_def getHash_def Let_def pw go_rem_nonneg)
  next
    case True
    show ?thesis
    proof (cases "sint (h k) = - (2 ^ 63)")
      case False
      have "- (2 ^ 63) \<le> sint (h k)"
        using sint_ge [of "h k"] by simp
      with False True have "- (2 ^ 63) \<le> - sint (h k)" "- sint (h k) < 2 ^ 63" "0 < - sint (h k)"
        by simp_all
      then have "sint (- h k) = - sint (h k)"
        by (simp add: sint_word_ariths signed_take_bit_int_eq_self)
      with True \<open>0 < - sint (h k)\<close> show ?thesis
        by (simp add: Hasher_def getHash_def Let_def pw go_rem_nonneg)
    next
      case m: True
      have s: "sint (- h k) = signed_take_bit 63 (2 ^ 63 :: int)"
        by (simp add: sint_word_ariths m)
      have s2: "sint (- h k) = - (2 ^ 63)"
        unfolding s by (simp add: signed_take_bit_eq_take_bit_shift take_bit_eq_mod)
      have "nat n \<le> 63"
        using assms by simp
      then have "(2::int) ^ nat n dvd 2 ^ 63"
        by (rule le_imp_power_dvd)
      then have z: "(2 ^ 63 :: int) mod 2 ^ nat n = 0"
        by (rule dvd_imp_mod_0)
      show ?thesis
        using True z by (simp add: Hasher_def getHash_def Let_def pw go_rem_def s2 m)
    qed
  qed
qed

text \<open>
  In the example the keys are the multiples of 4 and the hash of a key is the key: the
  entries with hash 4 modulo 8 are those in the odd slots.
\<close>

lemma example_full_pager_entries:
  "bucket_entries example_full_pager 0 MAX_BUCKET_SIZE
     = map (\<lambda>i. (4 * int i, int i)) [0..<203]"
  by (simp add: bucket_entries_def getEntry_def example_full_pager_def page_Update_def
        update_page_def MAX_BUCKET_SIZE_def)

lemma example_hash:
  assumes "i < 203"
  shows "\<bar>sint (word_of_int (4 * int i) :: 64 word)\<bar> mod 8 = 4 \<longleftrightarrow> odd i"
proof -
  have b: "- (2 ^ 63) \<le> 4 * int i" "4 * int i < 2 ^ 63"
    using assms by simp_all
  have "sint (word_of_int (4 * int i) :: 64 word) = signed_take_bit 63 (4 * int i)"
    by (simp only: sint_sbintrunc') simp
  also have "\<dots> = 4 * int i"
    using b by (rule signed_take_bit_int_eq_self)
  finally have "sint (word_of_int (4 * int i) :: 64 word) = 4 * int i" .
  then show ?thesis
    by (simp add: abs_mult) presburger
qed

lemma example_moved:
  "filter (\<lambda>e. \<bar>sint (word_of_int (fst e) :: 64 word)\<bar> mod 8 = 4)
       (map (\<lambda>i. (4 * int i, int i)) [0..<203])
     = map (\<lambda>i. (4 * int i, int i)) (filter odd [0..<203])"
  "filter (\<lambda>e. \<bar>sint (word_of_int (fst e) :: 64 word)\<bar> mod 8 \<noteq> 4)
       (map (\<lambda>i. (4 * int i, int i)) [0..<203])
     = map (\<lambda>i. (4 * int i, int i)) (filter even [0..<203])"
proof -
  have o: "(\<lambda>e. \<bar>sint (word_of_int (fst e) :: 64 word)\<bar> mod 8 = 4) ((4 * int i, int i)) = odd i"
    if "i \<in> set [0..<203]" for i
    using example_hash [of i] that by simp
  show "filter (\<lambda>e. \<bar>sint (word_of_int (fst e) :: 64 word)\<bar> mod 8 = 4)
       (map (\<lambda>i. (4 * int i, int i)) [0..<203])
     = map (\<lambda>i. (4 * int i, int i)) (filter odd [0..<203])"
    unfolding filter_map comp_def
    by (rule arg_cong [where f = "map (\<lambda>i. (4 * int i, int i))"], rule filter_cong [OF refl])
       (use o in simp)
  show "filter (\<lambda>e. \<bar>sint (word_of_int (fst e) :: 64 word)\<bar> mod 8 \<noteq> 4)
       (map (\<lambda>i. (4 * int i, int i)) [0..<203])
     = map (\<lambda>i. (4 * int i, int i)) (filter even [0..<203])"
    unfolding filter_map comp_def
    by (rule arg_cong [where f = "map (\<lambda>i. (4 * int i, int i))"], rule filter_cong [OF refl])
       (use o in simp)
qed

text \<open>
  With every frame pinned there is no page for the new bucket: the level ends in the
  call of \<open>WLock\<close> on the nil bucket, after the directory has been doubled, and no entry
  has moved.
\<close>

lemma full_buffer_pager_facts:
  "pageToBucket full_buffer_pager 0 = \<lparr>localDepth = 2, numKeys = MAX_BUCKET_SIZE, page = 0\<rparr>"
  "freeList full_buffer_pager = []"
  "unpinnedList full_buffer_pager = []"
  "numPages full_buffer_pager = 32"
  by (simp_all add: full_buffer_pager_def pageToBucket_def page_Update_def pinned_pager_def
        MaxPagesInBuffer_def)

theorem split_level_full_buffer:
  "numKeys (pageToBucket full_buffer_pager 0) = MAX_BUCKET_SIZE
   \<and> fst (split_level word_of_int example_table full_buffer_pager
            (pageToBucket full_buffer_pager 0) 0) = Inl NilDereference
   \<and> fst (snd (split_level word_of_int example_table full_buffer_pager
                 (pageToBucket full_buffer_pager 0) 0))
       = \<lparr>globalDepth = 3, buckets = [0, 1, 2, 3, 0, 1, 2, 3]\<rparr>
   \<and> numPages (snd (snd (split_level word_of_int example_table full_buffer_pager
                 (pageToBucket full_buffer_pager 0) 0))) = 32
   \<and> map_option fst (split word_of_int example_table full_buffer_pager
                        (pageToBucket full_buffer_pager 0) 0) = Some (Inl NilDereference)"
proof -
  have g: "GetNewPage (page_Update full_buffer_pager 0 upd) = (Inl ErrRanOutOfPages, page_Update full_buffer_pager 0 upd)"
    for upd
    by (simp add: GetNewPage_def newPage_def full_buffer_pager_facts)
  let ?b = "\<lparr>localDepth = 2, numKeys = MAX_BUCKET_SIZE, page = 0\<rparr>"
  let ?t = "\<lparr>globalDepth = 3, buckets = [0, 1, 2, 3, 0, 1, 2, 3]\<rparr>"
  let ?p = "page_Update full_buffer_pager 0 (\<lambda>d. d\<lparr>pg_localDepth := 3\<rparr>)"
  have l: "split_level word_of_int example_table full_buffer_pager ?b 0
      = (Inl NilDereference, ?t, ?p)"
    by (simp add: split_level_def example_table_def ExtendTable_def updateLocalDepth_def
          newHashBucket_def g Let_def)
  have s: "split word_of_int example_table full_buffer_pager ?b 0
      = Some (Inl NilDereference, ?t, ?p)"
    by (subst split.simps) (simp add: l)
  show ?thesis
    by (simp add: full_buffer_pager_facts l s)
qed


text \<open>
  C6. A bucket of local depth \<open>d\<close> (at most the global depth \<open>G\<close>) with up to
  \<open>MAX_BUCKET_SIZE\<close> keys, so in particular a full one, reached through the directory
  index \<open>i\<close>, its page pinned and a frame available for the new page. One level of
  \<open>split\<close> gives the bucket local depth \<open>d + 1\<close>; doubles the directory first if
  \<open>d = G\<close>; creates a bucket of local depth \<open>d + 1\<close> on a new page; moves to it exactly
  the entries whose hash (the absolute value of the 64-bit hash of the key) modulo
  \<open>2^(d+1)\<close> is \<open>new_index = i mod 2^d + 2^d\<close>, in order, and keeps the others, in order;
  points to the new page exactly the directory slots whose index is \<open>new_index\<close> modulo
  \<open>2^(d+1)\<close>; and goes on to split the old bucket if it still holds \<open>MAX_BUCKET_SIZE\<close>
  keys, else the new one if that does.
\<close>

theorem split_level_result:
  assumes d0: "0 \<le> localDepth b" and dG: "localDepth b \<le> globalDepth t"
    and G: "globalDepth t \<le> 61"
    and dir: "int (length (buckets t)) = 2 ^ nat (globalDepth t)"
    and i: "0 \<le> i" "i < 2 ^ nat (globalDepth t)"
    and n: "0 \<le> numKeys b" "numKeys b \<le> MAX_BUCKET_SIZE"
    and pinned: "page b \<notin> set (freeList p)" "page b \<notin> set (unpinnedList p)"
    and avail: "freeList p \<noteq> [] \<or> unpinnedList p \<noteq> []"
  shows "\<exists>b2 nb t2 p5 oldN newN.
      split_level h t p b i
        = (Inr (b2, nb, i mod 2 ^ nat (localDepth b),
                i mod 2 ^ nat (localDepth b) + 2 ^ nat (localDepth b), oldN, newN), t2, p5)
      \<and> localDepth b2 = localDepth b + 1 \<and> page b2 = page b
      \<and> pg_localDepth (data (pages p5 (page b))) = localDepth b + 1
      \<and> localDepth nb = localDepth b + 1 \<and> page nb \<noteq> page b
      \<and> pg_localDepth (data (pages p5 (page nb))) = localDepth b + 1
      \<and> pagenum (pages p5 (page nb)) = numPages p
      \<and> globalDepth t2
          = (if localDepth b = globalDepth t then globalDepth t + 1 else globalDepth t)
      \<and> numKeys b2 = oldN \<and> pg_numKeys (data (pages p5 (page b))) = oldN
      \<and> numKeys nb = newN \<and> pg_numKeys (data (pages p5 (page nb))) = newN
      \<and> bucket_entries p5 (page nb) newN
          = filter (\<lambda>e. \<bar>sint (h (fst e))\<bar> mod 2 ^ nat (localDepth b + 1)
                          = i mod 2 ^ nat (localDepth b) + 2 ^ nat (localDepth b))
              (bucket_entries p (page b) (numKeys b))
      \<and> bucket_entries p5 (page b) oldN
          = filter (\<lambda>e. \<bar>sint (h (fst e))\<bar> mod 2 ^ nat (localDepth b + 1)
                          \<noteq> i mod 2 ^ nat (localDepth b) + 2 ^ nat (localDepth b))
              (bucket_entries p (page b) (numKeys b))
      \<and> buckets t2
          = map (\<lambda>j. if int j mod 2 ^ nat (localDepth b + 1)
                          = i mod 2 ^ nat (localDepth b) + 2 ^ nat (localDepth b)
                       then numPages p
                       else (if localDepth b = globalDepth t then buckets t @ buckets t
                             else buckets t) ! j)
              [0..<length (if localDepth b = globalDepth t then buckets t @ buckets t
                           else buckets t)]
      \<and> split h t p b i
          = Option.bind
              (if oldN \<ge> MAX_BUCKET_SIZE then split h t2 p5 b2 (i mod 2 ^ nat (localDepth b))
               else if newN \<ge> MAX_BUCKET_SIZE
                 then split h t2 p5 nb (i mod 2 ^ nat (localDepth b) + 2 ^ nat (localDepth b))
               else Some (Inr (), t2, p5))
              (\<lambda>(r, t3, p6). Some (r, t3, snd (PutPage p6 (page nb))))"
proof -
  let ?d = "localDepth b"
  let ?oldHash = "i mod 2 ^ nat ?d"
  let ?newHash = "?oldHash + 2 ^ nat ?d"
  let ?P = "\<lambda>e. Hasher h (fst e) (?d + 1) = ?newHash"
  define t1 where "t1 = (if ?d = globalDepth t then ExtendTable t else t)"
  let ?b1 = "b\<lparr>localDepth := ?d + 1\<rparr>"
  let ?p1 = "page_Update p (page b) (\<lambda>x. x\<lparr>pg_localDepth := ?d + 1\<rparr>)"
  have pw: "powInt 2 ?d = 2 ^ nat ?d" "powInt 2 (?d + 1) = 2 ^ nat (?d + 1)"
    using d0 by (simp_all add: powInt_def)
  have oh: "go_rem i (2 ^ nat ?d) = ?oldHash"
    using i(1) by (simp add: go_rem_nonneg)
  have avail1: "freeList ?p1 \<noteq> [] \<or> unpinnedList ?p1 \<noteq> []"
    using avail by simp
  from newHashBucket_succeeds [OF avail1, of "?d + 1"] obtain f p2
    where nb: "newHashBucket ?p1 (?d + 1) = (Inr \<lparr>localDepth = ?d + 1, numKeys = 0, page = f\<rparr>, p2)"
      and fm: "f \<in> set (freeList ?p1) \<or> f \<in> set (unpinnedList ?p1)"
      and fpn: "pagenum (pages p2 f) = numPages ?p1"
      and dt: "\<And>g. g \<noteq> f \<Longrightarrow> data (pages p2 g) = data (pages ?p1 g)"
      and fd: "pg_localDepth (data (pages p2 f)) = ?d + 1"
    by metis
  let ?nb = "\<lparr>localDepth = ?d + 1, numKeys = 0, page = f\<rparr>"
  from fm pinned have ne: "page b \<noteq> f" by auto
  let ?tmp = "bucket_entries p2 (page b) (numKeys b)"
  have tmp: "?tmp = bucket_entries p (page b) (numKeys b)"
    by (rule bucket_entries_cong) (simp add: dt [OF ne])
  obtain p3 oldN newN where
    rd: "redistribute h (?d + 1) ?newHash (page b) f ?tmp (p2, 0, 0) = (p3, oldN, newN)"
    by (cases "redistribute h (?d + 1) ?newHash (page b) f ?tmp (p2, 0, 0)") auto
  have z: "(0::int) \<le> 0" by simp
  note re = redistribute_entries [OF ne z z rd]
  note rf = redistribute_fields [of h "?d + 1" ?newHash "page b" f ?tmp "(p2, 0, 0)", unfolded rd, simplified]
  let ?p4 = "page_Update p3 (page b) (\<lambda>x. x\<lparr>pg_numKeys := oldN\<rparr>)"
  let ?p5 = "page_Update ?p4 f (\<lambda>x. x\<lparr>pg_numKeys := newN\<rparr>)"
  let ?b2 = "?b1\<lparr>numKeys := oldN\<rparr>"
  let ?nb2 = "?nb\<lparr>numKeys := newN\<rparr>"
  let ?ext = "if ?d = globalDepth t then buckets t @ buckets t else buckets t"
  let ?G1 = "globalDepth t1"
  let ?t2 = "t1\<lparr>buckets := repoint (buckets t1) ?newHash (powInt 2 ?G1) (powInt 2 (?d + 1))
                (pagenum (pages ?p5 f))\<rparr>"
  have lvl: "split_level h t p b i
      = (Inr (?b2, ?nb2, ?oldHash, ?newHash, oldN, newN), ?t2, ?p5)"
    using n
    by (simp add: split_level_def Let_def updateLocalDepth_def nb oh pw rd updateNumKeys_def
          t1_def [symmetric] split del: if_split)
  have G1: "0 \<le> ?G1" "?G1 = (if ?d = globalDepth t then globalDepth t + 1 else globalDepth t)"
    using d0 dG by (auto simp: ExtendTable_def t1_def)
  have bt1: "buckets t1 = ?ext"
    by (simp add: ExtendTable_def t1_def)
  have len1: "int (length (buckets t1)) = powInt 2 ?G1"
    using dir d0 dG by (auto simp: ExtendTable_def powInt_def nat_add_distrib t1_def)
  have nh0: "0 \<le> ?newHash"
    using i(1) by simp
  have "?oldHash < 2 ^ nat ?d"
    by simp
  then have nh1: "?newHash < powInt 2 (?d + 1)"
    using d0 by (simp add: pw nat_add_distrib)
  have pn3: "pagenum (pages p3 f) = numPages p"
    using rf fpn by simp
  then have pn5: "pagenum (pages ?p5 f) = numPages p"
    by simp
  have "buckets ?t2
      = repoint (buckets t1) ?newHash (powInt 2 ?G1) (powInt 2 (?d + 1)) (numPages p)"
    by (simp add: pn3)
  also have "\<dots> = map (\<lambda>j. if int j mod powInt 2 (?d + 1) = ?newHash then numPages p
                            else buckets t1 ! j) [0..<length (buckets t1)]"
    by (rule repoint_eq [OF nh0 nh1 len1 [symmetric]])
  finally have dirs: "buckets ?t2
      = map (\<lambda>j. if int j mod 2 ^ nat (?d + 1) = ?newHash then numPages p else ?ext ! j)
          [0..<length ?ext]"
    unfolding bt1 pw(2) .
  from re have r3: "bucket_entries p3 (page b) oldN
      = bucket_entries p2 (page b) 0 @ filter (\<lambda>e. \<not> ?P e) ?tmp"
    and r4: "bucket_entries p3 f newN = bucket_entries p2 f 0 @ filter ?P ?tmp"
    by blast+
  have e_new: "bucket_entries ?p5 f newN = filter ?P (bucket_entries p (page b) (numKeys b))"
    unfolding tmp [symmetric] using r4 by (simp add: bucket_entries_page_Update)
  have e_old: "bucket_entries ?p5 (page b) oldN
      = filter (\<lambda>e. \<not> ?P e) (bucket_entries p (page b) (numKeys b))"
    unfolding tmp [symmetric] using r3 by (simp add: bucket_entries_page_Update)
  have dep_old: "pg_localDepth (data (pages ?p5 (page b))) = ?d + 1"
    using rf ne dt [OF ne] by simp
  have dep_new: "pg_localDepth (data (pages ?p5 f)) = ?d + 1"
    using rf ne fd by simp
  have nk: "pg_numKeys (data (pages ?p5 (page b))) = oldN" "pg_numKeys (data (pages ?p5 f)) = newN"
    using ne by simp_all
  have rec: "split h t p b i
      = Option.bind
          (if oldN \<ge> MAX_BUCKET_SIZE then split h ?t2 ?p5 ?b2 ?oldHash
           else if newN \<ge> MAX_BUCKET_SIZE then split h ?t2 ?p5 ?nb2 ?newHash
           else Some (Inr (), ?t2, ?p5))
          (\<lambda>(r, t3, p6). Some (r, t3, snd (PutPage p6 (page ?nb2))))"
    by (subst split.simps) (simp add: lvl)
  have hq: "Hasher h key (?d + 1) = \<bar>sint (h key)\<bar> mod 2 ^ nat (?d + 1)" for key
    using d0 dG G by (intro Hasher_eq_mod) simp_all
  show ?thesis
    apply (rule exI [of _ ?b2], rule exI [of _ ?nb2], rule exI [of _ ?t2], rule exI [of _ ?p5],
        rule exI [of _ oldN], rule exI [of _ newN])
    using lvl G1(2) dirs e_new [unfolded hq] e_old [unfolded hq] dep_old dep_new nk rec ne pn5
    by simp
qed

theorem split_level_result_witness:
  "localDepth (pageToBucket example_full_pager 0) = globalDepth example_table
   \<and> numKeys (pageToBucket example_full_pager 0) = MAX_BUCKET_SIZE
   \<and> (\<exists>b2 nb t2 p5 oldN newN.
        split_level word_of_int example_table example_full_pager
            (pageToBucket example_full_pager 0) 0
          = (Inr (b2, nb, 0, 4, oldN, newN), t2, p5)
        \<and> localDepth b2 = 3 \<and> localDepth nb = 3 \<and> globalDepth t2 = 3
        \<and> pagenum (pages p5 (page nb)) = 4
        \<and> buckets t2 = [0, 1, 2, 3, 4, 1, 2, 3]
        \<and> bucket_entries p5 (page nb) newN
            = map (\<lambda>i. (4 * int i, int i)) (filter odd [0..<203])
        \<and> bucket_entries p5 0 oldN
            = map (\<lambda>i. (4 * int i, int i)) (filter even [0..<203]))"
proof -
  let ?b = "pageToBucket example_full_pager 0"
  note f = example_full_pager_facts
  have h: "0 \<le> localDepth ?b" "localDepth ?b \<le> globalDepth example_table"
    "globalDepth example_table \<le> 61"
    "int (length (buckets example_table)) = 2 ^ nat (globalDepth example_table)"
    "(0::int) \<le> 0" "(0::int) < 2 ^ nat (globalDepth example_table)"
    "0 \<le> numKeys ?b" "numKeys ?b \<le> MAX_BUCKET_SIZE"
    "page ?b \<notin> set (freeList example_full_pager)"
    "page ?b \<notin> set (unpinnedList example_full_pager)"
    "freeList example_full_pager \<noteq> [] \<or> unpinnedList example_full_pager \<noteq> []"
    by (simp_all add: f example_table_def MAX_BUCKET_SIZE_def)
  have e: "bucket_entries example_full_pager 0 MAX_BUCKET_SIZE
      = map (\<lambda>i. (4 * int i, int i)) [0..<203]"
    by (rule example_full_pager_entries)
  from split_level_result [OF h, of word_of_int]
  show ?thesis
    unfolding f(1)
    by (simp add: f example_table_def upt_rec [of 0 8] upt_rec [of 1 8] upt_rec [of 2 8]
          upt_rec [of 3 8] upt_rec [of 4 8] upt_rec [of 5 8] upt_rec [of 6 8] upt_rec [of 7 8]
          upt_rec [of 8 8] e example_moved) blast
qed


section \<open>Properties of the B+Tree leaf\<close>

lemma bsearch_range: "i \<le> j \<Longrightarrow> i \<le> bsearch f i j \<and> bsearch f i j \<le> j"
proof (induction f i j rule: bsearch.induct)
  case (1 f i j)
  show ?case
  proof (cases "i < j")
    case False
    then have "bsearch f i j = i" by (subst bsearch.simps) simp
    with "1.prems" show ?thesis by simp
  next
    case True
    let ?h = "(i + j) div 2"
    from True have h: "i \<le> ?h" "?h < j" by auto
    show ?thesis
    proof (cases "f ?h")
      case fh: True
      have e: "bsearch f i j = bsearch f i ?h"
        using True fh by (subst bsearch.simps) (simp add: Let_def)
      from "1.IH"(2) [OF True refl] fh h
      have "i \<le> bsearch f i ?h \<and> bsearch f i ?h \<le> ?h" by simp
      with e h show ?thesis by simp
    next
      case fh: False
      have e: "bsearch f i j = bsearch f (?h + 1) j"
        using True fh by (subst bsearch.simps) (simp add: Let_def)
      from "1.IH"(1) [OF True refl fh] h
      have "?h + 1 \<le> bsearch f (?h + 1) j \<and> bsearch f (?h + 1) j \<le> j" by simp
      with e h show ?thesis by simp
    qed
  qed
qed

lemma leaf_modifyEntry_fields [simp]:
  "numPages (leaf_modifyEntry p f i e) = numPages p"
  "freeList (leaf_modifyEntry p f i e) = freeList p"
  "unpinnedList (leaf_modifyEntry p f i e) = unpinnedList p"
  "pinnedList (leaf_modifyEntry p f i e) = pinnedList p"
  "pageTable (leaf_modifyEntry p f i e) = pageTable p"
  "pagenum (pages (leaf_modifyEntry p f i e) g) = pagenum (pages p g)"
  "lp_leaf (data (pages (leaf_modifyEntry p f i e) g)) = lp_leaf (data (pages p g))"
  "lp_numKeys (data (pages (leaf_modifyEntry p f i e) g)) = lp_numKeys (data (pages p g))"
  "lp_rightSiblingPN (data (pages (leaf_modifyEntry p f i e) g)) = lp_rightSiblingPN (data (pages p g))"
  "lp_entries (data (pages (leaf_modifyEntry p f i e) g))
     = (if g = f then (lp_entries (data (pages p f)))(nat i := e) else lp_entries (data (pages p g)))"
  by (simp_all add: leaf_modifyEntry_def page_Update_def update_page_def)

lemma copy_entry_fields:
  fixes p :: "LeafPage Pager"
  assumes "f \<noteq> g \<or> nat i \<noteq> nat j"
  defines "p2 \<equiv> leaf_updateValueAt (leaf_updateKeyAt p f i (leaf_getKeyAt p g j)) f i
                   (leaf_getValueAt (leaf_updateKeyAt p f i (leaf_getKeyAt p g j)) g j)"
  shows "numPages p2 = numPages p" "freeList p2 = freeList p" "unpinnedList p2 = unpinnedList p"
    "pinnedList p2 = pinnedList p" "pageTable p2 = pageTable p"
    "pagenum (pages p2 x) = pagenum (pages p x)"
    "lp_leaf (data (pages p2 x)) = lp_leaf (data (pages p x))"
    "lp_numKeys (data (pages p2 x)) = lp_numKeys (data (pages p x))"
    "lp_rightSiblingPN (data (pages p2 x)) = lp_rightSiblingPN (data (pages p x))"
    "lp_entries (data (pages p2 x))
       = (if x = f then (lp_entries (data (pages p f)))(nat i := lp_entries (data (pages p g)) (nat j))
          else lp_entries (data (pages p x)))"
  using assms(1) unfolding p2_def
  by (auto simp: leaf_updateValueAt_def leaf_updateKeyAt_def leaf_getKeyAt_def leaf_getValueAt_def
        leaf_getEntry_def fun_eq_iff)

lemma shift_right_fields:
  "0 \<le> pos \<Longrightarrow> pos \<le> i + 1 \<Longrightarrow>
   numPages (shift_right p f i pos) = numPages p
   \<and> freeList (shift_right p f i pos) = freeList p
   \<and> unpinnedList (shift_right p f i pos) = unpinnedList p
   \<and> pinnedList (shift_right p f i pos) = pinnedList p
   \<and> pageTable (shift_right p f i pos) = pageTable p
   \<and> (\<forall>x. pagenum (pages (shift_right p f i pos) x) = pagenum (pages p x)
        \<and> lp_leaf (data (pages (shift_right p f i pos) x)) = lp_leaf (data (pages p x))
        \<and> lp_numKeys (data (pages (shift_right p f i pos) x)) = lp_numKeys (data (pages p x))
        \<and> lp_rightSiblingPN (data (pages (shift_right p f i pos) x))
            = lp_rightSiblingPN (data (pages p x))
        \<and> lp_entries (data (pages (shift_right p f i pos) x))
            = (if x = f
               then (\<lambda>j. if pos < int j \<and> int j \<le> i + 1
                          then lp_entries (data (pages p f)) (j - 1)
                          else lp_entries (data (pages p f)) j)
               else lp_entries (data (pages p x))))"
proof (induction p f i pos rule: shift_right.induct)
  case (1 p f i pos)
  show ?case
  proof (cases "i \<ge> pos")
    case False
    then have e: "shift_right p f i pos = p" by (subst shift_right.simps) simp
    from False "1.prems" have "pos = i + 1" by simp
    then show ?thesis unfolding e by (auto simp: fun_eq_iff)
  next
    case True
    define p2 where "p2 = leaf_updateValueAt (leaf_updateKeyAt p f (i + 1) (leaf_getKeyAt p f i)) f (i + 1)
        (leaf_getValueAt (leaf_updateKeyAt p f (i + 1) (leaf_getKeyAt p f i)) f i)"
    have e: "shift_right p f i pos = shift_right p2 f (i - 1) pos"
      using True by (subst shift_right.simps) (simp add: Let_def p2_def)
    from True "1.prems" have ne: "f \<noteq> f \<or> nat (i + 1) \<noteq> nat i" by simp
    note c = copy_entry_fields [OF ne, of p, folded p2_def]
    from True have le: "pos \<le> i - 1 + 1" by simp
    note ih = "1.IH" [OF True refl refl, folded p2_def, OF "1.prems"(1) le]
    have i0: "0 \<le> i" using True "1.prems" by simp
    have s: "(\<lambda>j. if pos < int j \<and> int j \<le> i
               then lp_entries (data (pages p2 f)) (j - 1) else lp_entries (data (pages p2 f)) j)
        = (\<lambda>j. if pos < int j \<and> int j \<le> i + 1
               then lp_entries (data (pages p f)) (j - 1) else lp_entries (data (pages p f)) j)"
    proof
      fix j :: nat
      consider "int j \<le> pos" | "pos < int j" "int j \<le> i" | "int j = i + 1" | "int j > i + 1"
        by linarith
      then show "(if pos < int j \<and> int j \<le> i
               then lp_entries (data (pages p2 f)) (j - 1) else lp_entries (data (pages p2 f)) j)
        = (if pos < int j \<and> int j \<le> i + 1
               then lp_entries (data (pages p f)) (j - 1) else lp_entries (data (pages p f)) j)"
      proof cases
        case 1
        with True i0 have "j \<noteq> nat (i + 1)" by auto
        with 1 show ?thesis by (simp add: c)
      next
        case 2
        with i0 have "j - 1 \<noteq> nat (i + 1)" by auto
        with 2 show ?thesis by (simp add: c)
      next
        case 3
        with i0 have "j = nat (i + 1)" "j - 1 = nat i" by auto
        with 3 True show ?thesis by (simp add: c)
      next
        case 4
        with i0 have "j \<noteq> nat (i + 1)" by auto
        with 4 show ?thesis by (simp add: c)
      qed
    qed
    show ?thesis
      unfolding e using ih by (simp add: c s)
  qed
qed

lemma transfer_fields:
  "ln_page node \<noteq> ln_page newNode \<Longrightarrow> 0 \<le> i \<Longrightarrow> 0 \<le> ln_numKeys newNode \<Longrightarrow>
   ln_page (fst (transfer p node newNode i)) = ln_page newNode
   \<and> ln_rightSiblingPN (fst (transfer p node newNode i)) = ln_rightSiblingPN newNode
   \<and> ln_numKeys (fst (transfer p node newNode i))
       = ln_numKeys newNode + (if i < ln_numKeys node then ln_numKeys node - i else 0)
   \<and> numPages (snd (transfer p node newNode i)) = numPages p
   \<and> freeList (snd (transfer p node newNode i)) = freeList p
   \<and> unpinnedList (snd (transfer p node newNode i)) = unpinnedList p
   \<and> pinnedList (snd (transfer p node newNode i)) = pinnedList p
   \<and> pageTable (snd (transfer p node newNode i)) = pageTable p
   \<and> lp_numKeys (data (pages (snd (transfer p node newNode i)) (ln_page newNode)))
       = (if i < ln_numKeys node then ln_numKeys newNode + (ln_numKeys node - i)
          else lp_numKeys (data (pages p (ln_page newNode))))
   \<and> lp_entries (data (pages (snd (transfer p node newNode i)) (ln_page newNode)))
       = (\<lambda>j. if ln_numKeys newNode \<le> int j \<and> int j < ln_numKeys newNode + (ln_numKeys node - i)
               then lp_entries (data (pages p (ln_page node))) (nat (i + (int j - ln_numKeys newNode)))
               else lp_entries (data (pages p (ln_page newNode))) j)
   \<and> (\<forall>x. pagenum (pages (snd (transfer p node newNode i)) x) = pagenum (pages p x)
        \<and> lp_leaf (data (pages (snd (transfer p node newNode i)) x)) = lp_leaf (data (pages p x))
        \<and> lp_rightSiblingPN (data (pages (snd (transfer p node newNode i)) x))
            = lp_rightSiblingPN (data (pages p x))
        \<and> (x \<noteq> ln_page newNode \<longrightarrow>
             data (pages (snd (transfer p node newNode i)) x) = data (pages p x)))"
proof (induction p node newNode i rule: transfer.induct)
  case (1 p node newNode i)
  let ?fo = "ln_page node" and ?fn = "ln_page newNode" and ?m = "ln_numKeys newNode"
  show ?case
  proof (cases "i < ln_numKeys node")
    case False
    then have e: "transfer p node newNode i = (newNode, p)" by (subst transfer.simps) simp
    from False show ?thesis unfolding e by (auto simp: fun_eq_iff)
  next
    case True
    define p1 where "p1 = leaf_updateKeyAt p ?fn ?m (leaf_getKeyAt p ?fo i)"
    define p2 where "p2 = leaf_updateValueAt p1 ?fn ?m (leaf_getValueAt p1 ?fo i)"
    define nn1 where "nn1 = newNode\<lparr>ln_numKeys := ?m + 1\<rparr>"
    define p3 where "p3 = page_Update p2 ?fn (\<lambda>d. d\<lparr>lp_numKeys := ?m + 1\<rparr>)"
    have u: "leaf_updateNumKeys p2 newNode (?m + 1) = (nn1, p3)"
      by (simp add: leaf_updateNumKeys_def nn1_def p3_def)
    have e: "transfer p node newNode i = transfer p3 node nn1 (i + 1)"
      using True by (subst transfer.simps) (simp add: Let_def p1_def [symmetric] p2_def [symmetric] u)
    from "1.prems" have ne: "?fn \<noteq> ?fo \<or> nat ?m \<noteq> nat i" by simp
    note c = copy_entry_fields [OF ne, of p, folded p1_def, folded p2_def]
    have pre: "ln_page node \<noteq> ln_page nn1" "0 \<le> i + 1" "0 \<le> ln_numKeys nn1"
      using "1.prems" by (simp_all add: nn1_def)
    note ih = "1.IH" [OF True p1_def p2_def refl u [symmetric] pre]
    have d3: "data (pages p3 x) = data (pages p x)" if "x \<noteq> ?fn" for x
    proof -
      have "data (pages p3 x) = data (pages p2 x)" using that by (simp add: p3_def)
      also have "\<dots> = data (pages p x)"
        using that unfolding p2_def p1_def
        by (simp add: leaf_updateValueAt_def leaf_updateKeyAt_def leaf_modifyEntry_def)
      finally show ?thesis .
    qed
    have fo: "lp_entries (data (pages p3 ?fo)) = lp_entries (data (pages p ?fo))"
      using d3 [of ?fo] "1.prems"(1) by simp
    have fn: "lp_entries (data (pages p3 ?fn))
        = (lp_entries (data (pages p ?fn)))(nat ?m := lp_entries (data (pages p ?fo)) (nat i))"
      by (simp add: p3_def c)
    have pg: "ln_page nn1 = ?fn" by (simp add: nn1_def)
    have nk: "ln_numKeys nn1 = ?m + 1" by (simp add: nn1_def)
    have rs: "ln_rightSiblingPN nn1 = ln_rightSiblingPN newNode" by (simp add: nn1_def)
    have nk3: "lp_numKeys (data (pages p3 ?fn)) = ?m + 1" by (simp add: p3_def)
    have s: "(\<lambda>j. if ln_numKeys nn1 \<le> int j \<and> int j < ln_numKeys nn1 + (ln_numKeys node - (i + 1))
               then lp_entries (data (pages p3 ?fo)) (nat (i + 1 + (int j - ln_numKeys nn1)))
               else lp_entries (data (pages p3 (ln_page nn1))) j)
        = (\<lambda>j. if ?m \<le> int j \<and> int j < ?m + (ln_numKeys node - i)
               then lp_entries (data (pages p ?fo)) (nat (i + (int j - ?m)))
               else lp_entries (data (pages p ?fn)) j)"
    proof
      fix j :: nat
      consider "int j < ?m" | "int j = ?m" | "?m < int j" "int j < ?m + (ln_numKeys node - i)"
        | "int j \<ge> ?m + (ln_numKeys node - i)" "?m < int j"
        by linarith
      then show "(if ln_numKeys nn1 \<le> int j \<and> int j < ln_numKeys nn1 + (ln_numKeys node - (i + 1))
               then lp_entries (data (pages p3 ?fo)) (nat (i + 1 + (int j - ln_numKeys nn1)))
               else lp_entries (data (pages p3 (ln_page nn1))) j)
        = (if ?m \<le> int j \<and> int j < ?m + (ln_numKeys node - i)
               then lp_entries (data (pages p ?fo)) (nat (i + (int j - ?m)))
               else lp_entries (data (pages p ?fn)) j)"
      proof cases
        case 1
        with "1.prems" have "j \<noteq> nat ?m" by auto
        with 1 show ?thesis by (simp add: pg nk fo fn)
      next
        case 2
        with "1.prems" have "j = nat ?m" by auto
        with 2 True show ?thesis by (simp add: pg nk fo fn)
      next
        case 3
        with "1.prems" have "j \<noteq> nat ?m" by auto
        with 3 show ?thesis by (simp add: pg nk fo fn algebra_simps)
      next
        case 4
        with "1.prems" have "j \<noteq> nat ?m" by auto
        with 4 show ?thesis by (simp add: pg nk fo fn)
      qed
    qed
    have other: "data (pages p3 x) = data (pages p x)" if "x \<noteq> ?fn" for x
      by (rule d3 [OF that])
    have misc: "pagenum (pages p3 x) = pagenum (pages p x)"
      "lp_leaf (data (pages p3 x)) = lp_leaf (data (pages p x))"
      "lp_rightSiblingPN (data (pages p3 x)) = lp_rightSiblingPN (data (pages p x))"
      "numPages p3 = numPages p" "freeList p3 = freeList p" "unpinnedList p3 = unpinnedList p"
      "pinnedList p3 = pinnedList p" "pageTable p3 = pageTable p" for x
      by (simp_all add: p3_def c)
    note ih1 = ih [unfolded s]
    show ?thesis
      unfolding e using ih1 True
      by (simp add: misc other pg nk rs nk3)
  qed
qed

lemma PutPage_pages [simp]:
  "data (pages (snd (PutPage p f)) g) = data (pages p g)"
  "pagenum (pages (snd (PutPage p f)) g) = pagenum (pages p g)"
  by (simp_all add: PutPage_def Let_def PopSelf_def split: option.split)

lemma createLeafNode_succeeds:
  assumes "freeList p \<noteq> [] \<or> unpinnedList p \<noteq> []"
  obtains nf q where
    "createLeafNode p = (Inr \<lparr>ln_numKeys = 0, ln_rightSiblingPN = 0, ln_page = nf\<rparr>, q)"
    and "nf \<in> set (freeList p) \<or> nf \<in> set (unpinnedList p)"
    and "pagenum (pages q nf) = numPages p"
    and "\<And>g. g \<noteq> nf \<Longrightarrow> data (pages q g) = data (pages p g)"
    and "\<And>g. g \<noteq> nf \<Longrightarrow> pagenum (pages q g) = pagenum (pages p g)"
    and "data (pages q nf)
         = \<lparr>lp_leaf = True, lp_numKeys = 0, lp_rightSiblingPN = 0, lp_entries = (\<lambda>i. (0, 0))\<rparr>"
proof -
  from GetNewPage_succeeds [OF assms] obtain f q0 where g: "GetNewPage p = (Inr f, q0)"
    and m: "f \<in> set (freeList p) \<or> f \<in> set (unpinnedList p)"
    and pn: "pagenum (pages q0 f) = numPages p"
    and dt: "\<And>g. data (pages q0 g) = data (pages p g)"
    and pns: "\<And>g. g \<noteq> f \<Longrightarrow> pagenum (pages q0 g) = pagenum (pages p g)"
    by metis
  show ?thesis
    by (rule that [of f "initPage_leaf q0 f"])
       (simp_all add: createLeafNode_def g initPage_leaf_def pageToLeafNode_def m pn dt pns)
qed

lemma leaf_entries_slots:
  "leaf_entries p f n = map (lp_entries (data (pages p f))) [0..<nat n]"
  by (simp add: leaf_entries_def leaf_getEntry_def)

lemma shifted_entries:
  assumes "pos \<le> n"
  shows "map ((\<lambda>j. if pos < j \<and> j \<le> n then S (j - 1) else S j)(pos := x)) [0..<Suc n]
    = insert_at (map S [0..<n]) pos x"
proof (rule nth_equalityI)
  show "length (map ((\<lambda>j. if pos < j \<and> j \<le> n then S (j - 1) else S j)(pos := x)) [0..<Suc n])
      = length (insert_at (map S [0..<n]) pos x)"
    using assms by (simp add: insert_at_def)
next
  fix j assume "j < length (map ((\<lambda>j. if pos < j \<and> j \<le> n then S (j - 1) else S j)(pos := x)) [0..<Suc n])"
  then have j: "j < Suc n" by simp
  consider "j < pos" | "j = pos" | "pos < j" by linarith
  then show "map ((\<lambda>j. if pos < j \<and> j \<le> n then S (j - 1) else S j)(pos := x)) [0..<Suc n] ! j
      = insert_at (map S [0..<n]) pos x ! j"
  proof cases
    case 1
    with j assms show ?thesis
      by (simp add: insert_at_def nth_append del: upt_Suc)
  next
    case 2
    with j assms show ?thesis
      by (simp add: insert_at_def nth_append del: upt_Suc)
  next
    case 3
    with j assms have "j - pos - 1 < n - pos" "pos + (j - pos - 1) = j - 1"
      by auto
    with 3 j assms show ?thesis
      by (simp add: insert_at_def nth_append min_def nth_Cons' del: upt_Suc)
  qed
qed

lemma drop_map_upt:
  "k \<le> n \<Longrightarrow> drop k (map S [0..<n]) = map (\<lambda>j. S (k + j)) [0..<n - k]"
  by (rule nth_equalityI) simp_all

lemma leaf_split_result:
  assumes m: "1 \<le> ln_numKeys node"
    and pinned: "ln_page node \<notin> set (freeList p)" "ln_page node \<notin> set (unpinnedList p)"
    and avail: "freeList p \<noteq> [] \<or> unpinnedList p \<noteq> []"
  obtains node' p' nf where
    "leaf_split p node
       = (Inr \<lparr>isSplit = True, split_key = leaf_getKeyAt p' nf 0,
               leftPN = pagenum (pages p (ln_page node)), rightPN = numPages p\<rparr>, node', p')"
    and "nf \<noteq> ln_page node" and "ln_page node' = ln_page node"
    and "pagenum (pages p' nf) = numPages p"
    and "pagenum (pages p' (ln_page node)) = pagenum (pages p (ln_page node))"
    and "ln_numKeys node' = ln_numKeys node div 2"
    and "lp_numKeys (data (pages p' (ln_page node))) = ln_numKeys node div 2"
    and "leaf_entries p' (ln_page node) (ln_numKeys node div 2)
         = take (nat (ln_numKeys node div 2)) (leaf_entries p (ln_page node) (ln_numKeys node))"
    and "lp_leaf (data (pages p' nf))"
    and "lp_numKeys (data (pages p' nf)) = ln_numKeys node - ln_numKeys node div 2"
    and "leaf_entries p' nf (ln_numKeys node - ln_numKeys node div 2)
         = drop (nat (ln_numKeys node div 2)) (leaf_entries p (ln_page node) (ln_numKeys node))"
    and "lp_rightSiblingPN (data (pages p' (ln_page node))) = numPages p"
    and "ln_rightSiblingPN node' = numPages p"
    and "lp_rightSiblingPN (data (pages p' nf)) = ln_rightSiblingPN node"
proof -
  let ?f = "ln_page node" and ?m = "ln_numKeys node"
  let ?mid = "?m div 2"
  from createLeafNode_succeeds [OF avail] obtain nf q where
    c: "createLeafNode p = (Inr \<lparr>ln_numKeys = 0, ln_rightSiblingPN = 0, ln_page = nf\<rparr>, q)"
    and nfm: "nf \<in> set (freeList p) \<or> nf \<in> set (unpinnedList p)"
    and qpn: "pagenum (pages q nf) = numPages p"
    and qd: "\<And>g. g \<noteq> nf \<Longrightarrow> data (pages q g) = data (pages p g)"
    and qpns: "\<And>g. g \<noteq> nf \<Longrightarrow> pagenum (pages q g) = pagenum (pages p g)"
    and qz: "data (pages q nf)
         = \<lparr>lp_leaf = True, lp_numKeys = 0, lp_rightSiblingPN = 0, lp_entries = (\<lambda>i. (0, 0))\<rparr>"
    by metis
  from nfm pinned have ne: "?f \<noteq> nf" by auto
  define node1 where "node1 = node\<lparr>ln_rightSiblingPN := numPages p\<rparr>"
  define q2 where "q2 = page_Update q ?f (\<lambda>d. d\<lparr>lp_rightSiblingPN := numPages p\<rparr>)"
  define nn1 where "nn1 = \<lparr>ln_numKeys = 0, ln_rightSiblingPN = ln_rightSiblingPN node, ln_page = nf\<rparr>"
  define q3 where "q3 = page_Update q2 nf (\<lambda>d. d\<lparr>lp_rightSiblingPN := ln_rightSiblingPN node\<rparr>)"
  have s1: "setRightSibling q node (pagenum (pages q nf)) = (ln_rightSiblingPN node, node1, q2)"
    by (simp add: setRightSibling_def node1_def q2_def qpn)
  have s2: "setRightSibling q2 \<lparr>ln_numKeys = 0, ln_rightSiblingPN = 0, ln_page = nf\<rparr>
      (ln_rightSiblingPN node) = (0, nn1, q3)"
    by (simp add: setRightSibling_def nn1_def q3_def)
  obtain nn2 q4 where t: "transfer q3 node1 nn1 ?mid = (nn2, q4)"
    by (cases "transfer q3 node1 nn1 ?mid") auto
  have pre: "ln_page node1 \<noteq> ln_page nn1" "0 \<le> ?mid" "0 \<le> ln_numKeys nn1"
    using ne m by (simp_all add: node1_def nn1_def)
  note tf = transfer_fields [OF pre, of q3, unfolded t, simplified]
  have n1: "ln_numKeys node1 = ?m" "ln_page node1 = ?f" "ln_page nn1 = nf" "ln_numKeys nn1 = 0"
    "ln_rightSiblingPN nn1 = ln_rightSiblingPN node"
    by (simp_all add: node1_def nn1_def)
  have lt: "?mid < ?m" using m by simp
  define node2 where "node2 = node1\<lparr>ln_numKeys := ?mid\<rparr>"
  define q5 where "q5 = page_Update q4 ?f (\<lambda>d. d\<lparr>lp_numKeys := ?mid\<rparr>)"
  have u: "leaf_updateNumKeys q4 node1 ?mid = (node2, q5)"
    by (simp add: leaf_updateNumKeys_def node2_def q5_def n1)
  have S3: "lp_entries (data (pages q3 ?f)) = lp_entries (data (pages p ?f))"
    using ne qd [OF ne] by (simp add: q3_def q2_def)
  have sp: "leaf_split p node
      = (Inr \<lparr>isSplit = True, split_key = leaf_getKeyAt q5 (ln_page nn2) 0,
              leftPN = pagenum (pages q5 (ln_page node2)),
              rightPN = pagenum (pages q5 (ln_page nn2))\<rparr>, node2,
         snd (PutPage q5 (ln_page nn2)))"
    by (simp add: leaf_split_def c s1 s2 Let_def n1 t u)
  have nn2: "ln_page nn2 = nf" "ln_numKeys nn2 = ?m - ?mid"
    using tf lt by (simp_all add: n1)
  have q4f: "data (pages q4 ?f) = data (pages q3 ?f)"
    using tf ne by (simp add: n1)
  have pn5: "pagenum (pages q5 x) = pagenum (pages q x)" for x
    using tf by (simp add: q5_def q3_def q2_def)
  have e_new: "lp_entries (data (pages q5 nf))
      = (\<lambda>j. if 0 \<le> int j \<and> int j < ?m - ?mid
              then lp_entries (data (pages p ?f)) (nat (?mid + int j))
              else lp_entries (data (pages q3 nf)) j)"
    using tf ne by (simp add: q5_def n1 S3 cong: if_cong)
  have e_old: "lp_entries (data (pages q5 ?f)) = lp_entries (data (pages p ?f))"
    using q4f S3 by (simp add: q5_def)
  have midm: "nat ?mid \<le> nat ?m" using lt m by simp
  have new_entries: "leaf_entries (snd (PutPage q5 nf)) nf (?m - ?mid)
      = drop (nat ?mid) (leaf_entries p ?f ?m)"
  proof -
    have "leaf_entries (snd (PutPage q5 nf)) nf (?m - ?mid)
        = map (\<lambda>j. lp_entries (data (pages p ?f)) (nat (?mid + int j))) [0..<nat (?m - ?mid)]"
      by (auto simp: leaf_entries_slots e_new)
    also have "\<dots> = map (\<lambda>j. lp_entries (data (pages p ?f)) (nat ?mid + j)) [0..<nat ?m - nat ?mid]"
      using m lt by (simp add: nat_add_distrib nat_diff_distrib)
    also have "\<dots> = drop (nat ?mid) (leaf_entries p ?f ?m)"
      by (simp add: leaf_entries_slots drop_map_upt [OF midm])
    finally show ?thesis .
  qed
  have old_entries: "leaf_entries (snd (PutPage q5 nf)) ?f ?mid
      = take (nat ?mid) (leaf_entries p ?f ?m)"
    using midm by (simp add: leaf_entries_slots e_old take_map min_def)
  show ?thesis
  proof (rule that [of "snd (PutPage q5 nf)" nf node2])
    show "leaf_split p node
        = (Inr \<lparr>isSplit = True, split_key = leaf_getKeyAt (snd (PutPage q5 nf)) nf 0,
                leftPN = pagenum (pages p ?f), rightPN = numPages p\<rparr>, node2,
           snd (PutPage q5 nf))"
      using ne by (simp add: sp nn2 pn5 qpn qpns node2_def n1 leaf_getKeyAt_def leaf_getEntry_def)
    show "nf \<noteq> ?f" using ne by simp
    show "ln_page node2 = ?f" by (simp add: node2_def n1)
    show "pagenum (pages (snd (PutPage q5 nf)) nf) = numPages p" by (simp add: pn5 qpn)
    show "pagenum (pages (snd (PutPage q5 nf)) ?f) = pagenum (pages p ?f)"
      using ne by (simp add: pn5 qpns)
    show "ln_numKeys node2 = ?mid" by (simp add: node2_def)
    show "lp_numKeys (data (pages (snd (PutPage q5 nf)) ?f)) = ?mid" by (simp add: q5_def)
    show "leaf_entries (snd (PutPage q5 nf)) ?f ?mid = take (nat ?mid) (leaf_entries p ?f ?m)"
      by (rule old_entries)
    show "lp_leaf (data (pages (snd (PutPage q5 nf)) nf))"
      using tf ne by (simp add: q5_def n1 q3_def q2_def qz)
    show "lp_numKeys (data (pages (snd (PutPage q5 nf)) nf)) = ?m - ?mid"
      using tf ne lt by (simp add: q5_def n1)
    show "leaf_entries (snd (PutPage q5 nf)) nf (?m - ?mid)
        = drop (nat ?mid) (leaf_entries p ?f ?m)"
      by (rule new_entries)
    show "lp_rightSiblingPN (data (pages (snd (PutPage q5 nf)) ?f)) = numPages p"
      using tf ne by (simp add: q5_def n1 q3_def q2_def)
    show "ln_rightSiblingPN node2 = numPages p" by (simp add: node2_def node1_def)
    show "lp_rightSiblingPN (data (pages (snd (PutPage q5 nf)) nf)) = ln_rightSiblingPN node"
      using tf ne by (simp add: q5_def n1 q3_def q2_def)
  qed
qed

lemma leaf_search_range:
  "0 \<le> ln_numKeys node \<Longrightarrow>
     0 \<le> leaf_search p node key \<and> leaf_search p node key \<le> ln_numKeys node"
  unfolding leaf_search_def by (rule bsearch_range)

lemma leaf_insert_state:
  fixes p :: "LeafPage Pager" and f :: nat and e :: Entry
  assumes n0: "0 \<le> n" and pos: "0 \<le> pos" "pos \<le> n"
  defines "p3 \<equiv> leaf_modifyEntry
      (page_Update (shift_right p f (n - 1) pos) f (\<lambda>d. d\<lparr>lp_numKeys := n + 1\<rparr>)) f pos e"
  shows "leaf_entries p3 f (n + 1) = insert_at (leaf_entries p f n) (nat pos) e"
    and "freeList p3 = freeList p" and "unpinnedList p3 = unpinnedList p"
    and "numPages p3 = numPages p" and "pagenum (pages p3 x) = pagenum (pages p x)"
proof -
  have le: "pos \<le> n - 1 + 1" using pos by simp
  note sf = shift_right_fields [OF pos(1) le, of p f]
  have S: "lp_entries (data (pages p3 f))
      = (\<lambda>j. if pos < int j \<and> int j \<le> n then lp_entries (data (pages p f)) (j - 1)
              else lp_entries (data (pages p f)) j)(nat pos := e)"
    using sf by (simp add: p3_def)
  have S': "(\<lambda>j. if pos < int j \<and> int j \<le> n then lp_entries (data (pages p f)) (j - 1)
              else lp_entries (data (pages p f)) j)
      = (\<lambda>j. if nat pos < j \<and> j \<le> nat n then lp_entries (data (pages p f)) (j - 1)
              else lp_entries (data (pages p f)) j)"
    using pos n0 by (auto simp: fun_eq_iff)
  have pn: "nat pos \<le> nat n" using pos by simp
  have "leaf_entries p3 f (n + 1)
      = map ((\<lambda>j. if nat pos < j \<and> j \<le> nat n then lp_entries (data (pages p f)) (j - 1)
              else lp_entries (data (pages p f)) j)(nat pos := e)) [0..<Suc (nat n)]"
    using n0 by (simp only: leaf_entries_slots S S' nat_add_distrib) simp
  also have "\<dots> = insert_at (map (lp_entries (data (pages p f))) [0..<nat n]) (nat pos) e"
    by (rule shifted_entries [OF pn])
  finally show "leaf_entries p3 f (n + 1) = insert_at (leaf_entries p f n) (nat pos) e"
    by (simp add: leaf_entries_slots)
  show "freeList p3 = freeList p" and "unpinnedList p3 = unpinnedList p"
    and "numPages p3 = numPages p" and "pagenum (pages p3 x) = pagenum (pages p x)"
    using sf by (simp_all add: p3_def)
qed

lemma example_leaf_pager_facts:
  "pageToLeafNode example_leaf_pager 0
     = \<lparr>ln_numKeys = ENTRIES_PER_LEAF_NODE - 1, ln_rightSiblingPN = - 1, ln_page = 0\<rparr>"
  "freeList example_leaf_pager \<noteq> []"
  "0 \<notin> set (freeList example_leaf_pager)"
  "0 \<notin> set (unpinnedList example_leaf_pager)"
  "numPages example_leaf_pager = 1"
  "pagenum (pages example_leaf_pager 0) = 0"
  "lp_entries (data (pages example_leaf_pager 0)) = (\<lambda>i. (2 * int i, int i))"
  by (simp_all add: example_leaf_pager_def pageToLeafNode_def page_Update_def pager_defs)

lemma example_leaf_search:
  "leaf_search example_leaf_pager (pageToLeafNode example_leaf_pager 0) 7 = 4"
  by (simp add: example_leaf_pager_facts leaf_search_def leaf_getKeyAt_def leaf_getEntry_def
        ENTRIES_PER_LEAF_NODE_def bsearch.simps)


lemma full_leaf_pager_facts:
  "pageToLeafNode full_leaf_pager 0
     = \<lparr>ln_numKeys = ENTRIES_PER_LEAF_NODE - 1, ln_rightSiblingPN = - 1, ln_page = 0\<rparr>"
  "freeList full_leaf_pager = []"
  "unpinnedList full_leaf_pager = []"
  "numPages full_leaf_pager = 32"
  "lp_entries (data (pages full_leaf_pager 0)) = (\<lambda>i. (2 * int i, int i))"
  by (simp_all add: full_leaf_pager_def pageToLeafNode_def page_Update_def pinned_pager_def
        MaxPagesInBuffer_def)

lemma full_leaf_search:
  "leaf_search full_leaf_pager (pageToLeafNode full_leaf_pager 0) 7 = 4"
  by (simp add: full_leaf_pager_facts leaf_search_def leaf_getKeyAt_def leaf_getEntry_def
        ENTRIES_PER_LEAF_NODE_def bsearch.simps)

text \<open>
  Without a frame for the new page, the insert that fills the leaf returns the pager's
  error after the entry has been put in: the leaf is not split.
\<close>

lemma leaf_insert_no_frame:
  assumes n0: "0 \<le> ln_numKeys node"
    and full: "ENTRIES_PER_LEAF_NODE \<le> ln_numKeys node + 1"
    and absent: "\<not> (leaf_search p node key < ln_numKeys node
        \<and> leaf_getKeyAt p (ln_page node) (leaf_search p node key) = key)"
    and none: "freeList p = []" "unpinnedList p = []"
  shows "fst (leaf_insert p node key val False) = Inl (BTreePagerError ErrRanOutOfPages)"
    and "fst (snd (leaf_insert p node key val False)) = node\<lparr>ln_numKeys := ln_numKeys node + 1\<rparr>"
    and "numPages (snd (snd (leaf_insert p node key val False))) = numPages p"
proof -
  let ?f = "ln_page node" and ?n = "ln_numKeys node"
  let ?pos = "leaf_search p node key"
  define node2 where "node2 = node\<lparr>ln_numKeys := ?n + 1\<rparr>"
  define p3 where "p3 = leaf_modifyEntry
      (page_Update (shift_right p ?f (?n - 1) ?pos) ?f (\<lambda>d. d\<lparr>lp_numKeys := ?n + 1\<rparr>)) ?f ?pos
      (key, val)"
  from leaf_search_range [OF n0] have pos: "0 \<le> ?pos" "?pos \<le> ?n" by simp_all
  note st = leaf_insert_state [OF n0 pos, of p ?f "(key, val)", folded p3_def]
  have ins: "leaf_insert p node key val False = leaf_split p3 node2"
    using absent full
    by (auto simp: leaf_insert_def Let_def leaf_updateNumKeys_def node2_def p3_def)
  have g: "GetNewPage p3 = (Inl ErrRanOutOfPages, p3)"
    using none by (simp add: GetNewPage_def newPage_def st)
  have sp: "leaf_split p3 node2 = (Inl (BTreePagerError ErrRanOutOfPages), node2, p3)"
    by (simp add: leaf_split_def createLeafNode_def g)
  show "fst (leaf_insert p node key val False) = Inl (BTreePagerError ErrRanOutOfPages)"
    and "fst (snd (leaf_insert p node key val False)) = node\<lparr>ln_numKeys := ln_numKeys node + 1\<rparr>"
    and "numPages (snd (snd (leaf_insert p node key val False))) = numPages p"
    unfolding ins sp by (simp_all add: node2_def st)
qed


text \<open>
  On the leaf with one key short of \<open>ENTRIES_PER_LEAF_NODE\<close> in the pager with every
  frame pinned, the insert of key 7 puts the entry in and returns the out-of-pages
  error: the leaf holds \<open>ENTRIES_PER_LEAF_NODE\<close> keys, has no new right sibling, and no
  page has been added.
\<close>

theorem leaf_insert_full_buffer:
  "ln_numKeys (pageToLeafNode full_leaf_pager 0) + 1 = ENTRIES_PER_LEAF_NODE
   \<and> fst (leaf_insert full_leaf_pager (pageToLeafNode full_leaf_pager 0) 7 70 False)
       = Inl (BTreePagerError ErrRanOutOfPages)
   \<and> fst (snd (leaf_insert full_leaf_pager (pageToLeafNode full_leaf_pager 0) 7 70 False))
       = \<lparr>ln_numKeys = ENTRIES_PER_LEAF_NODE, ln_rightSiblingPN = - 1, ln_page = 0\<rparr>
   \<and> numPages (snd (snd (leaf_insert full_leaf_pager (pageToLeafNode full_leaf_pager 0) 7 70
                            False))) = 32"
proof -
  let ?node = "pageToLeafNode full_leaf_pager 0"
  note f = full_leaf_pager_facts
  have k: "leaf_getKeyAt full_leaf_pager 0 4 = 8"
    by (simp add: leaf_getKeyAt_def leaf_getEntry_def f)
  have h: "0 \<le> ln_numKeys ?node" "ENTRIES_PER_LEAF_NODE \<le> ln_numKeys ?node + 1"
    "\<not> (leaf_search full_leaf_pager ?node 7 < ln_numKeys ?node
        \<and> leaf_getKeyAt full_leaf_pager (ln_page ?node) (leaf_search full_leaf_pager ?node 7) = 7)"
    unfolding full_leaf_search
    by (simp_all add: f(1) k ENTRIES_PER_LEAF_NODE_def)
  from leaf_insert_no_frame [OF h f(2) f(3), of 70]
  show ?thesis
    by (simp add: f)
qed


text \<open>
  C5. An insert of a key not yet in the leaf that brings the leaf to
  \<open>ENTRIES_PER_LEAF_NODE\<close> keys (the page of the leaf pinned, a frame available for the
  new page) splits the leaf at \<open>midpoint = numKeys / 2\<close>, \<open>numKeys\<close> counting the new
  entry: the leaf keeps the entries below the midpoint, the entries from the midpoint
  on are in a new leaf on a new page, in order; the leaf's right sibling is the new
  leaf and the new leaf's right sibling is the leaf's former one; the returned \<open>Split\<close>
  has the first key of the new leaf, the page number of the leaf as \<open>leftPN\<close> and the
  page number of the new leaf as \<open>rightPN\<close>.
\<close>

theorem leaf_insert_split:
  assumes n0: "0 \<le> ln_numKeys node"
    and full: "ENTRIES_PER_LEAF_NODE \<le> ln_numKeys node + 1"
    and fits: "ln_numKeys node \<le> ENTRIES_PER_LEAF_NODE"
    and absent: "\<not> (leaf_search p node key < ln_numKeys node
        \<and> leaf_getKeyAt p (ln_page node) (leaf_search p node key) = key)"
    and pinned: "ln_page node \<notin> set (freeList p)" "ln_page node \<notin> set (unpinnedList p)"
    and avail: "freeList p \<noteq> [] \<or> unpinnedList p \<noteq> []"
  shows "\<exists>node' p' nf.
      leaf_insert p node key val False
        = (Inr \<lparr>isSplit = True, split_key = leaf_getKeyAt p' nf 0,
                leftPN = pagenum (pages p (ln_page node)), rightPN = numPages p\<rparr>, node', p')
      \<and> nf \<noteq> ln_page node \<and> ln_page node' = ln_page node
      \<and> pagenum (pages p' nf) = numPages p
      \<and> pagenum (pages p' (ln_page node)) = pagenum (pages p (ln_page node))
      \<and> ln_numKeys node' = (ln_numKeys node + 1) div 2
      \<and> lp_numKeys (data (pages p' (ln_page node))) = (ln_numKeys node + 1) div 2
      \<and> leaf_entries p' (ln_page node) ((ln_numKeys node + 1) div 2)
          = take (nat ((ln_numKeys node + 1) div 2))
              (insert_at (leaf_entries p (ln_page node) (ln_numKeys node))
                 (nat (leaf_search p node key)) (key, val))
      \<and> lp_leaf (data (pages p' nf))
      \<and> lp_numKeys (data (pages p' nf)) = ln_numKeys node + 1 - (ln_numKeys node + 1) div 2
      \<and> leaf_entries p' nf (ln_numKeys node + 1 - (ln_numKeys node + 1) div 2)
          = drop (nat ((ln_numKeys node + 1) div 2))
              (insert_at (leaf_entries p (ln_page node) (ln_numKeys node))
                 (nat (leaf_search p node key)) (key, val))
      \<and> lp_rightSiblingPN (data (pages p' (ln_page node))) = numPages p
      \<and> ln_rightSiblingPN node' = numPages p
      \<and> lp_rightSiblingPN (data (pages p' nf)) = ln_rightSiblingPN node"
proof -
  let ?f = "ln_page node" and ?n = "ln_numKeys node"
  let ?pos = "leaf_search p node key"
  define node2 where "node2 = node\<lparr>ln_numKeys := ?n + 1\<rparr>"
  define p3 where "p3 = leaf_modifyEntry
      (page_Update (shift_right p ?f (?n - 1) ?pos) ?f (\<lambda>d. d\<lparr>lp_numKeys := ?n + 1\<rparr>)) ?f ?pos
      (key, val)"
  from leaf_search_range [OF n0] have pos: "0 \<le> ?pos" "?pos \<le> ?n" by simp_all
  note st = leaf_insert_state [OF n0 pos, of p ?f "(key, val)", folded p3_def]
  have n2: "ln_page node2 = ?f" "ln_numKeys node2 = ?n + 1"
    "ln_rightSiblingPN node2 = ln_rightSiblingPN node"
    by (simp_all add: node2_def)
  have ins: "leaf_insert p node key val False = leaf_split p3 node2"
    using absent full
    by (auto simp: leaf_insert_def Let_def leaf_updateNumKeys_def node2_def p3_def)
  have m: "1 \<le> ln_numKeys node2" using n0 by (simp add: n2)
  have pin3: "ln_page node2 \<notin> set (freeList p3)" "ln_page node2 \<notin> set (unpinnedList p3)"
    using pinned by (simp_all add: n2 st)
  have av3: "freeList p3 \<noteq> [] \<or> unpinnedList p3 \<noteq> []"
    using avail by (simp add: st)
  from leaf_split_result [OF m pin3 av3] obtain node' p' nf where
    r: "leaf_split p3 node2
       = (Inr \<lparr>isSplit = True, split_key = leaf_getKeyAt p' nf 0,
               leftPN = pagenum (pages p3 (ln_page node2)), rightPN = numPages p3\<rparr>, node', p')"
      "nf \<noteq> ln_page node2" "ln_page node' = ln_page node2"
      "pagenum (pages p' nf) = numPages p3"
      "pagenum (pages p' (ln_page node2)) = pagenum (pages p3 (ln_page node2))"
      "ln_numKeys node' = ln_numKeys node2 div 2"
      "lp_numKeys (data (pages p' (ln_page node2))) = ln_numKeys node2 div 2"
      "leaf_entries p' (ln_page node2) (ln_numKeys node2 div 2)
         = take (nat (ln_numKeys node2 div 2)) (leaf_entries p3 (ln_page node2) (ln_numKeys node2))"
      "lp_leaf (data (pages p' nf))"
      "lp_numKeys (data (pages p' nf)) = ln_numKeys node2 - ln_numKeys node2 div 2"
      "leaf_entries p' nf (ln_numKeys node2 - ln_numKeys node2 div 2)
         = drop (nat (ln_numKeys node2 div 2)) (leaf_entries p3 (ln_page node2) (ln_numKeys node2))"
      "lp_rightSiblingPN (data (pages p' (ln_page node2))) = numPages p3"
      "ln_rightSiblingPN node' = numPages p3"
      "lp_rightSiblingPN (data (pages p' nf)) = ln_rightSiblingPN node2"
    by metis
  show ?thesis
    apply (rule exI [of _ node'], rule exI [of _ p'], rule exI [of _ nf])
    using r [unfolded n2 st] ins
    by simp
qed

theorem leaf_insert_split_witness:
  "ln_numKeys (pageToLeafNode example_leaf_pager 0) + 1 = ENTRIES_PER_LEAF_NODE
   \<and> leaf_getKeyAt example_leaf_pager 0
        (leaf_search example_leaf_pager (pageToLeafNode example_leaf_pager 0) 7) = 8
   \<and> (\<exists>node' p' nf.
        leaf_insert example_leaf_pager (pageToLeafNode example_leaf_pager 0) 7 70 False
          = (Inr \<lparr>isSplit = True, split_key = leaf_getKeyAt p' nf 0, leftPN = 0, rightPN = 1\<rparr>,
             node', p')
        \<and> ln_numKeys node' = 101 \<and> lp_numKeys (data (pages p' nf)) = 101
        \<and> lp_rightSiblingPN (data (pages p' 0)) = 1
        \<and> lp_rightSiblingPN (data (pages p' nf)) = - 1)"
proof -
  let ?node = "pageToLeafNode example_leaf_pager 0"
  note f = example_leaf_pager_facts
  note s = example_leaf_search example_leaf_search [unfolded f(1)]
  have k: "leaf_getKeyAt example_leaf_pager 0 (leaf_search example_leaf_pager ?node 7) = 8"
    unfolding example_leaf_search by (simp add: leaf_getKeyAt_def leaf_getEntry_def f)
  have h: "0 \<le> ln_numKeys ?node" "ENTRIES_PER_LEAF_NODE \<le> ln_numKeys ?node + 1"
    "ln_numKeys ?node \<le> ENTRIES_PER_LEAF_NODE"
    "\<not> (leaf_search example_leaf_pager ?node 7 < ln_numKeys ?node
        \<and> leaf_getKeyAt example_leaf_pager (ln_page ?node) (leaf_search example_leaf_pager ?node 7) = 7)"
    "ln_page ?node \<notin> set (freeList example_leaf_pager)"
    "ln_page ?node \<notin> set (unpinnedList example_leaf_pager)"
    "freeList example_leaf_pager \<noteq> [] \<or> unpinnedList example_leaf_pager \<noteq> []"
    using k by (simp_all add: f s ENTRIES_PER_LEAF_NODE_def)
  from leaf_insert_split [OF h, of 70] k
  show ?thesis
    by (simp add: f s ENTRIES_PER_LEAF_NODE_def) blast
qed


section \<open>Properties of the redo of a log record\<close>

lemma digits_small: "n < 10 \<Longrightarrow> digits n = [digit_char n]"
  by (subst digits.simps) simp

lemma FormatInt_digit: "FormatInt 5 = ''5''" "FormatInt 7 = ''7''"
  by (simp_all add: FormatInt_def digits_small digit_char_def)

lemma Atoi_digit:
  "Atoi ''0'' = (0, True)" "Atoi ''1'' = (1, True)" "Atoi ''5'' = (5, True)"
  "Atoi ''7'' = (7, True)"
  by (simp_all add: Atoi_def isDigit_def digits_val_def digit_val_def)

lemma Fields_payloads:
  "Fields ''create hash table t'' = [''create'', ''hash'', ''table'', ''t'']"
  "Fields ''delete 5 from t'' = [''delete'', ''5'', ''from'', ''t'']"
  "Fields ''update t 5 7'' = [''update'', ''t'', ''5'', ''7'']"
  "Fields ''insert 5 7 into t'' = [''insert'', ''5'', ''7'', ''into'', ''t'']"
  by (simp_all add: Fields_def isSpace_def)

text \<open>The hash of a key at size 4 is a slot of the directory, also for the least \<open>int64\<close>.\<close>

lemma getHash_range: "0 \<le> getHash h k 4 \<and> getHash h k 4 < 4"
proof (cases "sint (h k) < 0")
  case False
  then show ?thesis
    by (simp add: getHash_def Let_def go_rem_nonneg)
next
  case True
  show ?thesis
  proof (cases "sint (h k) = - (2 ^ 63)")
    case False
    have "- (2 ^ 63) \<le> sint (h k)"
      using sint_ge [of "h k"] by simp
    with False True have "- (2 ^ 63) \<le> - sint (h k)" "- sint (h k) < 2 ^ 63" "0 < - sint (h k)"
      by simp_all
    then have "sint (- h k) = - sint (h k)"
      by (simp add: sint_word_ariths signed_take_bit_int_eq_self)
    with True \<open>0 < - sint (h k)\<close> show ?thesis
      by (simp add: getHash_def Let_def go_rem_nonneg)
  next
    case m: True
    have "sint (- h k) = signed_take_bit 63 (2 ^ 63 :: int)"
      by (simp add: sint_word_ariths m)
    also have "\<dots> = - (2 ^ 63)"
      by (simp add: signed_take_bit_eq_take_bit_shift take_bit_eq_mod)
    finally show ?thesis
      using True by (simp add: getHash_def Let_def go_rem_def)
  qed
qed

lemma Hasher_2_range: "Hasher h key 2 \<in> {0, 1, 2, 3}"
proof -
  have "Hasher h key 2 = getHash h key 4"
    by (simp add: Hasher_def powInt_def)
  with getHash_range [of h key] show ?thesis
    by auto
qed

lemma NewHashTable_new:
  "NewHashTable (New zero_page 0 Map.empty)
     = (Inr \<lparr>globalDepth = 2, buckets = [0, 1, 2, 3]\<rparr>, new_table_pager)"
  unfolding new_table_pager_def
  by (simp add: NewHashTable_def powInt_def eval_nat_numeral newHashBucket_def
        updateLocalDepth_def page_Update_def pager_defs prod_eq_iff)

lemma example_db_eq:
  "example_db env =
     \<lparr>tables = [''t'' \<mapsto> HashIndex \<lparr>globalDepth = 2, buckets = [0, 1, 2, 3]\<rparr> new_table_pager],
      on_disk = [''t'' \<mapsto> HashIndex \<lparr>globalDepth = 2, buckets = [0, 1, 2, 3]\<rparr> new_table_pager]\<rparr>"
  by (simp add: example_db_def HandleCreateTable_def Fields_payloads CreateTable_def isWord_def
        NewHashTable_new)

lemmas new_table_defs = new_table_pager_def NewHashTable_def powInt_def eval_nat_numeral
  newHashBucket_def updateLocalDepth_def page_Update_def pager_defs GetAndLockBucket_def
  GetPage_def PutPage_def PopSelf_def bucket_index_of_def pageToBucket_def zero_page_def
  update_page_def

text \<open>Every bucket of the new table is empty, so a delete finds no key in any of them.\<close>

lemma delete_in_new_table:
  assumes "i \<in> {0, 1, 2, 3}"
  shows "fst (case GetAndLockBucket \<lparr>globalDepth = 2, buckets = [0, 1, 2, 3]\<rparr> new_table_pager i r of
           (Inl e, p1) \<Rightarrow> (Inl e, p1)
         | (Inr bucket, p1) \<Rightarrow>
             (case bucket_Delete p1 bucket key of
                (r, b2, p2) \<Rightarrow> (r, snd (PutPage p2 (page b2))))) = Inl KeyNotFound"
  using assms by (auto simp: bucket_Delete_def new_table_defs)

lemma hash_Delete_new_table:
  "fst (hash_Delete h \<lparr>globalDepth = 2, buckets = [0, 1, 2, 3]\<rparr> new_table_pager key r)
     = Inl KeyNotFound"
  using delete_in_new_table [OF Hasher_2_range [of h key]]
  by (simp add: hash_Delete_def)

text \<open>
  The redo of an update of a key that the new table does not hold succeeds: the
  update fails in the bucket and the record is redone as an insert.
\<close>

lemmas redo_defs = redo_def DELETE_ACTION_def INSERT_ACTION_def UPDATE_ACTION_def
  FormatInt_digit Atoi_digit HandleUpdate_def HandleInsert_def Fields_payloads example_db_eq
  GetTable_def index_Update_def index_Insert_def index_Find_def hash_Update_def hash_Find_def
  hash_Insert_def bucket_Update_def bucket_Find_def bucket_Insert_def MAX_BUCKET_SIZE_def
  modifyEntry_def updateNumKeys_def set_table_def new_table_defs

lemma redo_update_of_missing_key:
  "map_option fst (redo env (example_db env) (editLog u ''t'' UPDATE_ACTION 5 0 7))
     = Some (Inr ())"
proof -
  from Hasher_2_range [of "env_hasher env" 5]
  consider "Hasher (env_hasher env) 5 2 = 0" | "Hasher (env_hasher env) 5 2 = 1"
    | "Hasher (env_hasher env) 5 2 = 2" | "Hasher (env_hasher env) 5 2 = 3"
    by auto
  then show ?thesis
  proof cases
    case 1
    then show ?thesis by (simp add: redo_defs)
  next
    case 2
    then show ?thesis by (simp add: redo_defs)
  next
    case 3
    then show ?thesis by (simp add: redo_defs)
  next
    case 4
    then show ?thesis by (simp add: redo_defs)
  qed
qed


text \<open>
  C1. The redo of a delete record is not a no-op when the key is missing and the
  table is a hash table: in the database made by \<open>create hash table t\<close>, whatever the
  hash function, the redo of the record \<open>DELETE\<close> of key 5 in \<open>t\<close> returns the error of
  \<open>HashBucket.Delete\<close>, "key not found, delete aborted", wrapped by \<open>HandleDelete\<close>.
\<close>

theorem redo_delete_missing_key:
  "map_option fst (redo env (example_db env) (editLog u ''t'' DELETE_ACTION 5 0 0))
     = Some (Inl (IndexFailed (HashError KeyNotFound)))"
proof -
  obtain r p where d:
    "hash_Delete (env_hasher env) \<lparr>globalDepth = 2, buckets = [0, 1, 2, 3]\<rparr> new_table_pager 5
       (env_read_ok env) = (r, p)"
    by (cases "hash_Delete (env_hasher env) \<lparr>globalDepth = 2, buckets = [0, 1, 2, 3]\<rparr>
                 new_table_pager 5 (env_read_ok env)")
  with hash_Delete_new_table [of "env_hasher env" 5 "env_read_ok env"]
  have r: "r = Inl KeyNotFound"
    by simp
  show ?thesis
    by (simp add: redo_def DELETE_ACTION_def INSERT_ACTION_def UPDATE_ACTION_def
          FormatInt_digit HandleDelete_def Fields_payloads Atoi_digit example_db_eq
          GetTable_def index_Delete_def d r Let_def)
qed


section \<open>Properties of the log lines\<close>

lemma nil_uuid_bytes: "nil_uuid = [0, 0, 0, 0, 0, 0, 0, 0, 0, 0, 0, 0, 0, 0, 0, 0]"
  by (simp add: nil_uuid_def eval_nat_numeral)

lemma hex_byte_0: "hex_byte 0 = ''00''"
  by (simp add: hex_byte_def hex_digit_def)

lemma nil_uuid_String: "uuid_String nil_uuid = ''00000000-0000-0000-0000-000000000000''"
  unfolding nil_uuid_bytes uuid_String_def hex_bytes_def
  by (simp add: hex_byte_0)

lemma nil_uuid_Parse: "uuid_Parse ''00000000-0000-0000-0000-000000000000'' = Some nil_uuid"
  by (simp add: uuid_Parse_def parse_byte_def hex_val_def nil_uuid_bytes)

lemma Rep_unfold:
  "Rep 4 r = seqs [r, r, r, r]"
  "Rep 8 r = seqs [r, r, r, r, r, r, r, r]"
  "Rep 12 r = seqs [r, r, r, r, r, r, r, r, r, r, r, r]"
  by (simp_all add: Rep_def eval_nat_numeral)

lemmas regex_defs = seqs_def Rep_unfold Plus_def Opt_def word_class_def digit_class_def
  space_class_def hex_class_def uuidPattern_def

text \<open>The line of an insert of key 1 is parsed back to the record.\<close>

lemma line_of_key_1:
  "toString (editLog nil_uuid ''t'' INSERT_ACTION 1 0 0)
     = ''< 00000000-0000-0000-0000-000000000000, t, INSERT, 1, 0, 0 >\<newline>''"
  by (simp add: nil_uuid_String INSERT_ACTION_def FormatInt_def digits_small digit_char_def)

lemma key_1_no_table:
  "search tableExp ''< 00000000-0000-0000-0000-000000000000, t, INSERT, 1, 0, 0 >\<newline>'' = None"
  by (simp add: tableExp_def regex_defs)

lemma key_1_edit:
  "search editExp ''< 00000000-0000-0000-0000-000000000000, t, INSERT, 1, 0, 0 >\<newline>''
     = Some (''< 00000000-0000-0000-0000-000000000000, t, INSERT, 1, 0, 0 >'',
             (\<lambda>n. [])(1 := ''00000000-0000-0000-0000-000000000000'', 2 := ''t'',
                3 := ''INSERT'', 4 := ''1'', 5 := ''0'', 6 := ''0''), ''\<newline>'')"
  by (simp add: editExp_def regex_defs)

lemma logFromString_key_1:
  "logFromString (toString (editLog nil_uuid ''t'' INSERT_ACTION 1 0 0))
     = Inr (editLog nil_uuid ''t'' INSERT_ACTION 1 0 0)"
  unfolding line_of_key_1
  by (simp add: logFromString_def MatchString_def FindStringSubmatch_def key_1_no_table
        key_1_edit nil_uuid_Parse Atoi_digit INSERT_ACTION_def del: search.simps)

text \<open>The line of an insert of key \<open>-1\<close> matches none of the five patterns.\<close>

lemma line_of_key_minus_1:
  "toString (editLog nil_uuid ''t'' INSERT_ACTION (- 1) 0 0)
     = ''< 00000000-0000-0000-0000-000000000000, t, INSERT, -1, 0, 0 >\<newline>''"
  by (simp add: nil_uuid_String INSERT_ACTION_def FormatInt_def digits_small digit_char_def)

lemma key_minus_1_no_table:
  "search tableExp ''< 00000000-0000-0000-0000-000000000000, t, INSERT, -1, 0, 0 >\<newline>'' = None"
  by (simp add: tableExp_def regex_defs)

lemma key_minus_1_no_edit:
  "search editExp ''< 00000000-0000-0000-0000-000000000000, t, INSERT, -1, 0, 0 >\<newline>'' = None"
  by (simp add: editExp_def regex_defs)

lemma key_minus_1_no_start:
  "search startExp ''< 00000000-0000-0000-0000-000000000000, t, INSERT, -1, 0, 0 >\<newline>'' = None"
  by (simp add: startExp_def regex_defs)

lemma key_minus_1_no_commit:
  "search commitExp ''< 00000000-0000-0000-0000-000000000000, t, INSERT, -1, 0, 0 >\<newline>'' = None"
  by (simp add: commitExp_def regex_defs)

lemma key_minus_1_no_checkpoint:
  "search checkpointExp ''< 00000000-0000-0000-0000-000000000000, t, INSERT, -1, 0, 0 >\<newline>''
     = None"
  by (simp add: checkpointExp_def regex_defs)


text \<open>
  C7. Writing a record and parsing the line back does not give the record for an edit
  with a negative number: the line of the insert of key \<open>-1\<close> with old and new value 0
  into table \<open>t\<close> by the transaction with the nil UUID is rejected by \<open>logFromString\<close> with
  the error "could not parse log", the pattern of an edit line having only digits for
  the key and the two values.
\<close>

theorem logFromString_negative_key:
  "logFromString (toString (editLog nil_uuid ''t'' INSERT_ACTION (- 1) 0 0))
     = Inl CouldNotParseLog"
  unfolding line_of_key_minus_1
  by (simp only: logFromString_def MatchString_def key_minus_1_no_table key_minus_1_no_edit
        key_minus_1_no_start key_minus_1_no_commit key_minus_1_no_checkpoint simp_thms if_False)

end
